theory Spec2Isabelle
  imports Main "HOL-Library.Word" "HOL-Library.Char_ord" "HOL-Library.List_Lexorder"
begin

section \<open>Paths\<close>

text \<open>
  A \<open>std::filesystem::path\<close> is modelled by its generic-format string on a POSIX host:
  the separator is \<open>/\<close>, there is no root name, a backslash is an ordinary character.
  The functions below are the operations of the standard library that
  \<open>IncludeResolver.hpp\<close> calls on paths.
\<close>

type_synonym path = string

text \<open>The pieces of a string between separators.\<close>

fun split_sep :: "string \<Rightarrow> string list" where
  "split_sep [] = [[]]"
| "split_sep (c # cs) =
     (if c = CHR ''/'' then [] # split_sep cs
      else (case split_sep cs of [] \<Rightarrow> [[c]] | w # ws \<Rightarrow> (c # w) # ws))"

definition has_root_directory :: "path \<Rightarrow> bool" where
  "has_root_directory p = (case p of [] \<Rightarrow> False | c # _ \<Rightarrow> c = CHR ''/'')"

text \<open>
  The elements of the relative part, as iteration over a path yields them: redundant
  separators are skipped, a trailing separator gives an empty last element.
\<close>

definition path_elems :: "path \<Rightarrow> string list" where
  "path_elems p =
     (let ws = filter (\<lambda>w. w \<noteq> []) (split_sep p)
      in if ws \<noteq> [] \<and> last p = CHR ''/'' then ws @ [[]] else ws)"

text \<open>
  \<open>path::compare\<close>: a path without root directory is smaller than one with it;
  otherwise the elements are compared lexicographically, each as a string.
\<close>

definition path_less :: "path \<Rightarrow> path \<Rightarrow> bool" where
  "path_less p q =
     (if has_root_directory p = has_root_directory q then path_elems p < path_elems q
      else \<not> has_root_directory p)"

definition path_equiv :: "path \<Rightarrow> path \<Rightarrow> bool" where
  "path_equiv p q = (\<not> path_less p q \<and> \<not> path_less q p)"

text \<open>\<open>path::filename\<close>: what follows the last separator.\<close>

definition filename :: "path \<Rightarrow> string" where
  "filename p = last (split_sep p)"

text \<open>
  \<open>path::parent_path\<close>: the path itself when it has no relative part, else the path
  without its last element and the separators before it (the root directory stays).
\<close>

definition parent_path :: "path \<Rightarrow> path" where
  "parent_path p =
     (if path_elems p = [] then p
      else let q = rev (dropWhile (\<lambda>c. c = CHR ''/'') (dropWhile (\<lambda>c. c \<noteq> CHR ''/'') (rev p)))
           in if q = [] \<and> has_root_directory p then ''/'' else q)"

text \<open>
  \<open>operator/\<close>: an absolute right operand replaces the left one; otherwise a separator
  is added when the left operand ends in a file name, and the right operand is appended.
\<close>

definition path_join :: "path \<Rightarrow> path \<Rightarrow> path" where
  "path_join p q =
     (if has_root_directory q then q
      else if p \<noteq> [] \<and> last p \<noteq> CHR ''/'' then p @ ''/'' @ q
      else p @ q)"

section \<open>String views\<close>

text \<open>\<open>size_t\<close> is 64 bits wide; \<open>npos\<close> is its largest value.\<close>

definition npos :: nat where
  "npos = 2 ^ 64 - 1"

definition size_t_sub :: "nat \<Rightarrow> nat \<Rightarrow> nat" where
  "size_t_sub a b = (a + 2 ^ 64 - b) mod 2 ^ 64"

text \<open>\<open>s.find_first_of(cs, pos)\<close>: the first index from \<open>pos\<close> on whose character is in \<open>cs\<close>.\<close>

definition find_first_of :: "string \<Rightarrow> char list \<Rightarrow> nat \<Rightarrow> nat" where
  "find_first_of s cs pos =
     (let k = pos + length (takeWhile (\<lambda>c. c \<notin> set cs) (drop pos s))
      in if k < length s then k else npos)"

text \<open>
  \<open>s.substr(pos, count)\<close> with \<open>pos \<le> s.size()\<close>, which holds at every call of the
  source: the count is cut at the end of the string.
\<close>

definition substr :: "string \<Rightarrow> nat \<Rightarrow> nat \<Rightarrow> string" where
  "substr s pos count = take count (drop pos s)"

text \<open>
  \<open>bStartWith\<close> and \<open>bEndWith\<close> return a flag and set \<open>subStr\<close> when the flag is true:
  here \<open>Some subStr\<close> and \<open>None\<close>.
\<close>

definition bStartWith :: "string \<Rightarrow> string \<Rightarrow> string option" where
  "bStartWith str prefix =
     (if length str < length prefix then None
      else if substr str 0 (length prefix) = prefix then Some (drop (length prefix) str)
      else None)"

definition bEndWith :: "string \<Rightarrow> string \<Rightarrow> string option" where
  "bEndWith str suffix =
     (if length str < length suffix then None
      else let offset = length str - length suffix
           in if drop offset str = suffix then Some (substr str 0 offset) else None)"

definition cppExtensionList :: "string list" where
  "cppExtensionList = [''.h'', ''.hpp'', ''.hxx'', ''.hh'', ''.c'', ''.cpp'', ''.cxx'']"

definition isCppFile :: "string \<Rightarrow> bool" where
  "isCppFile filePath = (\<exists>cppExtension \<in> set cppExtensionList. bEndWith filePath cppExtension \<noteq> None)"

text \<open>\<open>std::replace(s.begin(), s.end(), '\\', '/')\<close>.\<close>

definition replace_backslash :: "string \<Rightarrow> string" where
  "replace_backslash s = map (\<lambda>c. if c = CHR 0x5C then CHR ''/'' else c) s"

section \<open>Ordered containers\<close>

text \<open>
  A \<open>std::set\<close> is the list of its elements in the order of iteration, which is the
  order of its comparison; \<open>insert\<close> leaves the set as it is when an equivalent element
  (neither smaller nor greater) is there.
\<close>

fun set_insert :: "('a \<Rightarrow> 'a \<Rightarrow> bool) \<Rightarrow> 'a \<Rightarrow> 'a list \<Rightarrow> 'a list" where
  "set_insert lt x [] = [x]"
| "set_insert lt x (y # ys) =
     (if lt x y then x # y # ys
      else if lt y x then y # set_insert lt x ys
      else y # ys)"

text \<open>
  A \<open>std::multimap\<close> keyed by paths is the list of its entries in key order.
  \<open>emplace\<close> puts the new entry after the entries whose key is not greater;
  \<open>find\<close> gives the position of the first entry with an equivalent key.
\<close>

fun multimap_emplace :: "path \<Rightarrow> 'v \<Rightarrow> (path \<times> 'v) list \<Rightarrow> (path \<times> 'v) list" where
  "multimap_emplace k v [] = [(k, v)]"
| "multimap_emplace k v (e # m) =
     (if path_less k (fst e) then (k, v) # e # m else e # multimap_emplace k v m)"

fun multimap_find :: "path \<Rightarrow> (path \<times> 'v) list \<Rightarrow> nat option" where
  "multimap_find k [] = None"
| "multimap_find k (e # m) =
     (if path_less (fst e) k then map_option Suc (multimap_find k m)
      else if path_less k (fst e) then None
      else Some 0)"

section \<open>The data of the resolver\<close>

record IncludeResolverSettings =
  toParseFolderList :: "path list"
  includeFolderList :: "path list"
  resolveFolderList :: "path list"

record IncludeLocation =
  filePath :: path
  line :: "32 word"

text \<open>The field \<open>include\<close> of the source is \<open>includeText\<close> here.\<close>

record UnresolvedInclude = IncludeLocation +
  includeText :: string

text \<open>
  The field \<open>resolveIncludeFolderSet\<close> of \<open>ConflictedInclude\<close> is \<open>resolveIncludeFolderSet_c\<close>;
  the name without suffix is the field of \<open>IncludeResolverResult\<close>.
\<close>

record ConflictedInclude =
  includeLocationSet :: "IncludeLocation list"
  resolveIncludeFolderSet_c :: "path list"

record IncludeResolverResult =
  invalidPathSet :: "path list"
  unresolvedIncludeSet :: "UnresolvedInclude list"
  conflictedIncludeMap :: "(path \<times> ConflictedInclude) list"
  resolveIncludeFolderSet :: "path list"

text \<open>\<open>operator<\<close> of \<open>IncludeLocation\<close>; the one of \<open>UnresolvedInclude\<close> compares the locations only.\<close>

definition location_less :: "('a IncludeLocation_scheme) \<Rightarrow> ('b IncludeLocation_scheme) \<Rightarrow> bool" where
  "location_less lhs rhs =
     (if \<not> path_equiv (filePath lhs) (filePath rhs) then path_less (filePath lhs) (filePath rhs)
      else line lhs < line rhs)"

definition unresolved_less :: "UnresolvedInclude \<Rightarrow> UnresolvedInclude \<Rightarrow> bool" where
  "unresolved_less lhs rhs = location_less lhs rhs"

section \<open>The file system\<close>

text \<open>
  What the pass reads from the disk, which does not change while the pass runs.
  \<open>fs_exists\<close> is \<open>std::filesystem::exists\<close>: \<open>Some True\<close> and \<open>Some False\<close> are what it
  returns, \<open>None\<close> is where it throws (the status of the path cannot be read: a name
  that is too long, a folder on the way that may not be searched, a loop of links);
  \<open>fs_canonical\<close> is \<open>canonical\<close> (of \<open>absolute\<close>), \<open>None\<close> where it throws;
  \<open>fs_directory_iterator\<close> gives the entries that \<open>directory_iterator\<close> yields for a
  folder, in its order, and \<open>None\<close> where it throws (no such directory). An entry for
  which \<open>is_directory\<close> holds is a \<open>Directory\<close> and carries the entries that the
  iterator yields for it in turn: the tree under a folder is finite. \<open>Unreadable\<close> is an
  entry at which the walk throws: \<open>is_directory\<close> cannot read its status, or it is a
  folder that \<open>directory_iterator\<close> cannot open.
  \<open>fs_lines\<close> is the sequence of lines \<open>std::getline\<close> reads from a file, empty when the
  file cannot be opened.
\<close>

datatype dir_entry = File path | Directory path "dir_entry list" | Unreadable path

record filesystem =
  fs_exists :: "path \<Rightarrow> bool option"
  fs_canonical :: "path \<Rightarrow> path option"
  fs_directory_iterator :: "path \<Rightarrow> dir_entry list option"
  fs_lines :: "path \<Rightarrow> string list"

text \<open>
  \<open>Filesystem_Error\<close> is the exception \<open>std::filesystem::filesystem_error\<close>, which
  nothing in the source catches. \<open>Dangling_Reference\<close> is the use of a closure whose
  captured references point into an activation of \<open>computeIncludeResolve\<close> that has
  returned: the behaviour of the program is undefined from there on.
\<close>

datatype error = Filesystem_Error | Dangling_Reference

section \<open>File discovery\<close>

fun updateCppFileList_entry :: "filesystem \<Rightarrow> dir_entry \<Rightarrow> path list \<Rightarrow> error + path list"
  and updateCppFileList_entries :: "filesystem \<Rightarrow> dir_entry list \<Rightarrow> path list \<Rightarrow> error + path list"
where
  "updateCppFileList_entry fs (Directory p es) cppFileList = updateCppFileList_entries fs es cppFileList"
| "updateCppFileList_entry fs (File p) cppFileList =
     (if isCppFile p then
        (case fs_canonical fs p of
           None \<Rightarrow> Inl Filesystem_Error
         | Some c \<Rightarrow> Inr (cppFileList @ [c]))
      else Inr cppFileList)"
| "updateCppFileList_entry fs (Unreadable p) cppFileList = Inl Filesystem_Error"
| "updateCppFileList_entries fs [] cppFileList = Inr cppFileList"
| "updateCppFileList_entries fs (e # es) cppFileList =
     (case updateCppFileList_entry fs e cppFileList of
        Inl err \<Rightarrow> Inl err
      | Inr cppFileList' \<Rightarrow> updateCppFileList_entries fs es cppFileList')"

definition updateCppFileList :: "filesystem \<Rightarrow> path \<Rightarrow> path list \<Rightarrow> error + path list" where
  "updateCppFileList fs folderPath cppFileList =
     (case fs_directory_iterator fs folderPath of
        None \<Rightarrow> Inl Filesystem_Error
      | Some es \<Rightarrow> updateCppFileList_entries fs es cppFileList)"

section \<open>The state of one pass\<close>

text \<open>
  The local variables of one activation of \<open>computeIncludeResolve\<close>, and what stays in
  the process between activations. \<open>frame\<close> identifies the activation: the number of
  earlier activations in the process.

  The three helper closures \<open>addToParse\<close>, \<open>findProjectInclude\<close> and \<open>findInclude\<close> are
  \<open>static\<close> locals capturing local variables by reference: each is initialised once per
  process, when control first passes its declaration, and keeps referring to the variables
  of the activation that initialised it. \<open>addToParse_env\<close>, \<open>findProjectInclude_env\<close> and
  \<open>findInclude_env\<close> hold that activation, \<open>None\<close> before the initialisation.
\<close>

record statics =
  activations :: nat
  addToParse_env :: "nat option"
  findProjectInclude_env :: "nat option"
  findInclude_env :: "nat option"

record pass_state = statics +
  frame :: nat
  result :: IncludeResolverResult
  cppFileToParseList :: "path list"
  cppFileToParseSet :: "path set"
  resolveFileMultiMap :: "(string \<times> path) list"

definition fresh_process :: statics where
  "fresh_process =
     \<lparr>activations = 0, addToParse_env = None, findProjectInclude_env = None, findInclude_env = None\<rparr>"

text \<open>Initialisation of a static local: the first activation to pass the declaration wins.\<close>

definition init_static :: "nat option \<Rightarrow> nat \<Rightarrow> nat option" where
  "init_static env cur = (case env of None \<Rightarrow> Some cur | Some b \<Rightarrow> Some b)"

text \<open>
  Control passes the declaration of \<open>addToParse\<close> at every include directive, and the
  declarations of the two finders at every directive that is not resolved beside its file.
\<close>

definition declare_addToParse :: "pass_state \<Rightarrow> pass_state" where
  "declare_addToParse st = st\<lparr>addToParse_env := init_static (addToParse_env st) (frame st)\<rparr>"

definition declare_finders :: "pass_state \<Rightarrow> pass_state" where
  "declare_finders st =
     st\<lparr>findProjectInclude_env := init_static (findProjectInclude_env st) (frame st),
        findInclude_env := init_static (findInclude_env st) (frame st)\<rparr>"

section \<open>The helper closures\<close>

definition addToParse :: "filesystem \<Rightarrow> path \<Rightarrow> pass_state \<Rightarrow> error + pass_state" where
  "addToParse fs includePath st =
     (if addToParse_env st \<noteq> Some (frame st) then Inl Dangling_Reference
      else case fs_canonical fs includePath of
        None \<Rightarrow> Inl Filesystem_Error
      | Some canonicalPath \<Rightarrow>
          if canonicalPath \<notin> cppFileToParseSet st then
            Inr (st\<lparr>cppFileToParseSet := insert canonicalPath (cppFileToParseSet st),
                    cppFileToParseList := cppFileToParseList st @ [canonicalPath]\<rparr>)
          else Inr st)"

text \<open>
  \<open>findProjectInclude\<close> walks the known include folders in the order of the set and stops
  at the first whose join with the include text exists: \<open>Some fileFound\<close> for \<open>true\<close>.
  It asks \<open>exists\<close> at every folder it comes to, which can throw.
\<close>

fun findProjectInclude_loop :: "filesystem \<Rightarrow> string \<Rightarrow> path list \<Rightarrow> error + path option" where
  "findProjectInclude_loop fs inc [] = Inr None"
| "findProjectInclude_loop fs inc (resolveIncludeFolder # folders) =
     (let fileFound = path_join resolveIncludeFolder inc
      in case fs_exists fs fileFound of
           None \<Rightarrow> Inl Filesystem_Error
         | Some found \<Rightarrow>
             if found then Inr (Some fileFound) else findProjectInclude_loop fs inc folders)"

definition findProjectInclude :: "filesystem \<Rightarrow> string \<Rightarrow> pass_state \<Rightarrow> error + path option" where
  "findProjectInclude fs inc st =
     (if findProjectInclude_env st \<noteq> Some (frame st) then Inl Dangling_Reference
      else findProjectInclude_loop fs inc (resolveIncludeFolderSet (result st)))"

text \<open>
  \<open>findInclude\<close> fills the folder set of a fresh \<open>ConflictedInclude\<close> from the candidates
  whose file name is the base name of the include text; it returns \<open>true\<close> when the set is
  not empty. The model returns the set.
\<close>

definition findInclude_step :: "string \<Rightarrow> string \<times> path \<Rightarrow> path list \<Rightarrow> path list" where
  "findInclude_step inc e folders =
     (case bEndWith (replace_backslash (snd e)) (''/'' @ inc) of
        Some sub \<Rightarrow> set_insert path_less sub folders
      | None \<Rightarrow> folders)"

definition candidate_folders :: "string \<Rightarrow> (string \<times> path) list \<Rightarrow> path list" where
  "candidate_folders inc pool =
     fold (findInclude_step inc) (filter (\<lambda>e. fst e = filename inc) pool) []"

definition findInclude :: "string \<Rightarrow> pass_state \<Rightarrow> error + path list" where
  "findInclude inc st =
     (if findInclude_env st \<noteq> Some (frame st) then Inl Dangling_Reference
      else Inr (candidate_folders inc (resolveFileMultiMap st)))"

text \<open>The loop \<open>for (resolveIncludeFolder : ...) addToParse(resolveIncludeFolder / include)\<close>.\<close>

fun addToParse_each :: "filesystem \<Rightarrow> string \<Rightarrow> path list \<Rightarrow> pass_state \<Rightarrow> error + pass_state" where
  "addToParse_each fs inc [] st = Inr st"
| "addToParse_each fs inc (resolveIncludeFolder # folders) st =
     (case addToParse fs (path_join resolveIncludeFolder inc) st of
        Inl err \<Rightarrow> Inl err
      | Inr st' \<Rightarrow> addToParse_each fs inc folders st')"

section \<open>One include directive\<close>

text \<open>
  The body of the line loop from the computation of \<open>includePath\<close> on: what the pass does
  with the include text \<open>inc\<close> found at line \<open>lineIndex\<close> of \<open>cppFileToParse\<close>.
\<close>

definition process_include :: "filesystem \<Rightarrow> path \<Rightarrow> 32 word \<Rightarrow> string \<Rightarrow> pass_state \<Rightarrow> error + pass_state" where
  "process_include fs cppFileToParse lineIndex inc st =
     (let includePath = path_join (parent_path cppFileToParse) inc;
          st1 = declare_addToParse st
      in case fs_exists fs includePath of
        None \<Rightarrow> Inl Filesystem_Error
      | Some beside \<Rightarrow>
          if beside then addToParse fs includePath st1
          else
            let st2 = declare_finders st1;
                includeLocation = \<lparr>filePath = cppFileToParse, line = lineIndex\<rparr>;
                m = conflictedIncludeMap (result st2)
            in case multimap_find inc m of
              Some it \<Rightarrow>
                Inr (st2\<lparr>result := (result st2)\<lparr>conflictedIncludeMap :=
                       m[it := (fst (m ! it), (snd (m ! it))\<lparr>includeLocationSet :=
                          set_insert location_less includeLocation (includeLocationSet (snd (m ! it)))\<rparr>)]\<rparr>\<rparr>)
            | None \<Rightarrow>
                (case findInclude inc st2 of
                   Inl err \<Rightarrow> Inl err
                 | Inr folders \<Rightarrow>
                     if folders \<noteq> [] then
                       (if length folders = 1 then
                          let resolveIncludeFolderFound = hd folders
                          in addToParse fs (path_join resolveIncludeFolderFound inc)
                               (st2\<lparr>result := (result st2)\<lparr>resolveIncludeFolderSet :=
                                  set_insert path_less resolveIncludeFolderFound
                                    (resolveIncludeFolderSet (result st2))\<rparr>\<rparr>)
                        else
                          let conflictedInclude =
                                \<lparr>includeLocationSet = set_insert location_less includeLocation [],
                                 resolveIncludeFolderSet_c = folders\<rparr>
                          in addToParse_each fs inc folders
                               (st2\<lparr>result := (result st2)\<lparr>conflictedIncludeMap :=
                                  multimap_emplace inc conflictedInclude m\<rparr>\<rparr>))
                     else
                       (case findProjectInclude fs inc st2 of
                          Inl err \<Rightarrow> Inl err
                        | Inr (Some fileFound) \<Rightarrow> addToParse fs fileFound st2
                        | Inr None \<Rightarrow>
                            Inr (st2\<lparr>result := (result st2)\<lparr>unresolvedIncludeSet :=
                                   set_insert unresolved_less
                                     \<lparr>filePath = cppFileToParse, line = lineIndex, includeText = inc\<rparr>
                                     (unresolvedIncludeSet (result st2))\<rparr>\<rparr>))))"

section \<open>One line, one file\<close>

text \<open>
  The head of the line loop: the line must start with the directive marker and hold an
  opening delimiter; the include text runs from there to the next closing delimiter.
  The subtraction \<open>endPos - startPos - 1\<close> is the one of \<open>size_t\<close>.
\<close>

definition include_of_line :: "string \<Rightarrow> string option" where
  "include_of_line ln =
     (case bStartWith ln ''#include '' of
        None \<Rightarrow> None
      | Some sub \<Rightarrow>
          let startPos = find_first_of sub [CHR 0x22, CHR ''<''] 0
          in if startPos = npos then None
             else let endPos = find_first_of sub [CHR 0x22, CHR ''>''] (startPos + 1)
                  in Some (substr sub (startPos + 1) (size_t_sub (size_t_sub endPos startPos) 1)))"

definition process_line :: "filesystem \<Rightarrow> path \<Rightarrow> 32 word \<Rightarrow> string \<Rightarrow> pass_state \<Rightarrow> error + pass_state" where
  "process_line fs cppFileToParse lineIndex ln st =
     (case include_of_line ln of
        None \<Rightarrow> Inr st
      | Some inc \<Rightarrow> process_include fs cppFileToParse lineIndex inc st)"

fun scan_lines :: "filesystem \<Rightarrow> path \<Rightarrow> 32 word \<Rightarrow> string list \<Rightarrow> pass_state \<Rightarrow> error + pass_state" where
  "scan_lines fs cppFileToParse lineIndex [] st = Inr st"
| "scan_lines fs cppFileToParse lineIndex (ln # lns) st =
     (case process_line fs cppFileToParse lineIndex ln st of
        Inl err \<Rightarrow> Inl err
      | Inr st' \<Rightarrow> scan_lines fs cppFileToParse (lineIndex + 1) lns st')"

definition scan_file :: "filesystem \<Rightarrow> path \<Rightarrow> pass_state \<Rightarrow> error + pass_state" where
  "scan_file fs cppFileToParse st = scan_lines fs cppFileToParse 1 (fs_lines fs cppFileToParse) st"

section \<open>The worklist loop\<close>

text \<open>
  The loop over \<open>cppFileToParseList\<close>, which grows while it runs. The progress callback
  gets the position counted from one, the present size of the list, and the file; it
  returns nothing, so what it does is a change of an observer state \<open>'o\<close> of its own.
  The loop need not end: \<open>None\<close> is the pass that never returns.
\<close>

partial_function (option) parse_loop ::
  "filesystem \<Rightarrow> (nat \<Rightarrow> nat \<Rightarrow> path \<Rightarrow> 'o \<Rightarrow> 'o) \<Rightarrow> nat \<Rightarrow> pass_state \<Rightarrow> 'o \<Rightarrow> (error + pass_state \<times> 'o) option"
where
  "parse_loop fs parseStatusCallback i st obs =
     (if i < length (cppFileToParseList st) then
        let cppFileToParse = cppFileToParseList st ! i;
            obs' = parseStatusCallback (i + 1) (length (cppFileToParseList st)) cppFileToParse obs
        in case scan_file fs cppFileToParse st of
             Inl err \<Rightarrow> Some (Inl err)
           | Inr st' \<Rightarrow> parse_loop fs parseStatusCallback (i + 1) st' obs'
      else Some (Inr (st, obs)))"

declare parse_loop.simps [code]

section \<open>The pass\<close>

text \<open>The three loops over the settings that come before the worklist loop.\<close>

fun seedParseFolders :: "filesystem \<Rightarrow> path list \<Rightarrow> path list \<Rightarrow> error + path list" where
  "seedParseFolders fs [] cppFileList = Inr cppFileList"
| "seedParseFolders fs (toParseFolder # folders) cppFileList =
     (case updateCppFileList fs toParseFolder cppFileList of
        Inl err \<Rightarrow> Inl err
      | Inr cppFileList' \<Rightarrow> seedParseFolders fs folders cppFileList')"

fun seedIncludeFolders ::
  "filesystem \<Rightarrow> path list \<Rightarrow> IncludeResolverResult \<Rightarrow> error + IncludeResolverResult"
where
  "seedIncludeFolders fs [] res = Inr res"
| "seedIncludeFolders fs (includeFolder # folders) res =
     (case fs_exists fs includeFolder of
        None \<Rightarrow> Inl Filesystem_Error
      | Some there \<Rightarrow>
          if there then
            (case fs_canonical fs includeFolder of
               None \<Rightarrow> Inl Filesystem_Error
             | Some c \<Rightarrow>
                 seedIncludeFolders fs folders
                   (res\<lparr>resolveIncludeFolderSet := set_insert path_less c (resolveIncludeFolderSet res)\<rparr>))
          else
            seedIncludeFolders fs folders
              (res\<lparr>invalidPathSet := set_insert path_less includeFolder (invalidPathSet res)\<rparr>))"

fun seedResolveFolders ::
  "filesystem \<Rightarrow> path list \<Rightarrow> path list \<Rightarrow> IncludeResolverResult \<Rightarrow>
     error + path list \<times> IncludeResolverResult"
where
  "seedResolveFolders fs [] resolveFileList res = Inr (resolveFileList, res)"
| "seedResolveFolders fs (resolveFolder # folders) resolveFileList res =
     (case fs_exists fs resolveFolder of
        None \<Rightarrow> Inl Filesystem_Error
      | Some there \<Rightarrow>
          if there then
            (case updateCppFileList fs resolveFolder resolveFileList of
               Inl err \<Rightarrow> Inl err
             | Inr resolveFileList' \<Rightarrow> seedResolveFolders fs folders resolveFileList' res)
          else
            seedResolveFolders fs folders resolveFileList
              (res\<lparr>invalidPathSet := set_insert path_less resolveFolder (invalidPathSet res)\<rparr>))"

definition empty_result :: IncludeResolverResult where
  "empty_result =
     \<lparr>invalidPathSet = [], unresolvedIncludeSet = [], conflictedIncludeMap = [],
      resolveIncludeFolderSet = []\<rparr>"

text \<open>The state in which the worklist loop starts, in a process in state \<open>proc\<close>.\<close>

definition initial_state ::
  "statics \<Rightarrow> path list \<Rightarrow> path list \<Rightarrow> IncludeResolverResult \<Rightarrow> pass_state"
where
  "initial_state proc cppFileToParseList0 resolveFileList res =
     \<lparr>activations = Suc (activations proc),
      addToParse_env = addToParse_env proc,
      findProjectInclude_env = findProjectInclude_env proc,
      findInclude_env = findInclude_env proc,
      frame = activations proc,
      result = res,
      cppFileToParseList = cppFileToParseList0,
      cppFileToParseSet = set cppFileToParseList0,
      resolveFileMultiMap = map (\<lambda>resolveFile. (filename resolveFile, resolveFile)) resolveFileList\<rparr>"

definition statics_of :: "pass_state \<Rightarrow> statics" where
  "statics_of st =
     \<lparr>activations = activations st, addToParse_env = addToParse_env st,
      findProjectInclude_env = findProjectInclude_env st, findInclude_env = findInclude_env st\<rparr>"

text \<open>Everything before the worklist loop: the state in which the loop starts.\<close>

definition start_state :: "filesystem \<Rightarrow> IncludeResolverSettings \<Rightarrow> statics \<Rightarrow> error + pass_state" where
  "start_state fs settings proc =
     (case seedParseFolders fs (toParseFolderList settings) [] of
        Inl err \<Rightarrow> Inl err
      | Inr cppFileToParseList0 \<Rightarrow>
          (case seedIncludeFolders fs (includeFolderList settings) empty_result of
             Inl err \<Rightarrow> Inl err
           | Inr res1 \<Rightarrow>
               (case seedResolveFolders fs (resolveFolderList settings) [] res1 of
                  Inl err \<Rightarrow> Inl err
                | Inr (resolveFileList, res2) \<Rightarrow>
                    Inr (initial_state proc cppFileToParseList0 resolveFileList res2))))"

text \<open>
  \<open>computeIncludeResolve\<close> in a process in state \<open>proc\<close>: the result, what the callback
  has observed, and the process afterwards. An exception leaves through \<open>Inl\<close>.
\<close>

definition computeIncludeResolve ::
  "filesystem \<Rightarrow> IncludeResolverSettings \<Rightarrow> (nat \<Rightarrow> nat \<Rightarrow> path \<Rightarrow> 'o \<Rightarrow> 'o) \<Rightarrow> 'o \<Rightarrow> statics \<Rightarrow>
     (error + IncludeResolverResult \<times> 'o \<times> statics) option"
where
  "computeIncludeResolve fs settings parseStatusCallback obs proc =
     (case start_state fs settings proc of
        Inl err \<Rightarrow> Some (Inl err)
      | Inr st0 \<Rightarrow>
          map_option
            (map_sum id (\<lambda>(st, obs'). (result st, obs', statics_of st)))
            (parse_loop fs parseStatusCallback 0 st0 obs))"

text \<open>The default callback does nothing; the example callback prints, here: records its arguments.\<close>

definition no_callback :: "nat \<Rightarrow> nat \<Rightarrow> path \<Rightarrow> unit \<Rightarrow> unit" where
  "no_callback current n cppFileToParse obs = obs"

definition displayParseStatus :: "nat \<Rightarrow> nat \<Rightarrow> path \<Rightarrow> (nat \<times> nat \<times> path) list \<Rightarrow> (nat \<times> nat \<times> path) list" where
  "displayParseStatus current n cppFileToParse out = out @ [(current, n, cppFileToParse)]"

section \<open>Moments of a pass\<close>

text \<open>
  \<open>pass_steps fs st st'\<close>: the pass can get from \<open>st\<close> to \<open>st'\<close> by working on include
  directives, one after the other, none of them raising.
\<close>

inductive pass_steps :: "filesystem \<Rightarrow> pass_state \<Rightarrow> pass_state \<Rightarrow> bool" for fs :: filesystem where
  pass_refl: "pass_steps fs st st"
| pass_step: "pass_steps fs st st1 \<Longrightarrow> process_include fs cppFileToParse lineIndex inc st1 = Inr st2 \<Longrightarrow>
     pass_steps fs st st2"

text \<open>The state when the first \<open>k\<close> files of the worklist have been scanned.\<close>

fun state_after :: "filesystem \<Rightarrow> nat \<Rightarrow> pass_state \<Rightarrow> error + pass_state" where
  "state_after fs 0 st = Inr st"
| "state_after fs (Suc k) st =
     (case state_after fs k st of
        Inl err \<Rightarrow> Inl err
      | Inr st' \<Rightarrow>
          if k < length (cppFileToParseList st') then scan_file fs (cppFileToParseList st' ! k) st'
          else Inr st')"

text \<open>
  What the callback is given at the file at position \<open>k\<close> (counted from zero): the position
  counted from one, the size of the worklist at that moment, the file.
\<close>

definition callback_args :: "filesystem \<Rightarrow> pass_state \<Rightarrow> nat \<Rightarrow> nat \<times> nat \<times> path" where
  "callback_args fs st0 k =
     (case state_after fs k st0 of
        Inl err \<Rightarrow> (Suc k, 0, [])
      | Inr st \<Rightarrow> (Suc k, length (cppFileToParseList st), cppFileToParseList st ! k))"

definition run_callback :: "(nat \<Rightarrow> nat \<Rightarrow> path \<Rightarrow> 'o \<Rightarrow> 'o) \<Rightarrow> nat \<times> nat \<times> path \<Rightarrow> 'o \<Rightarrow> 'o" where
  "run_callback parseStatusCallback args obs =
     (case args of (current, n, cppFileToParse) \<Rightarrow> parseStatusCallback current n cppFileToParse obs)"


text \<open>
  A \<open>std::set\<close> of paths holds a path when it has an equivalent element; likewise for
  locations.
\<close>

definition path_set_contains :: "path \<Rightarrow> path list \<Rightarrow> bool" where
  "path_set_contains p ps = (\<exists>q \<in> set ps. path_equiv q p)"

definition location_set_contains :: "IncludeLocation \<Rightarrow> IncludeLocation list \<Rightarrow> bool" where
  "location_set_contains loc locs = (\<exists>x \<in> set locs. \<not> location_less x loc \<and> \<not> location_less loc x)"

text \<open>
  The conflict map is in key order without equivalent keys, and every entry holds the
  folders that the candidate search gives for its key, two at least, and a location.
\<close>

definition conflict_entry_ok :: "(string \<times> path) list \<Rightarrow> path \<times> ConflictedInclude \<Rightarrow> bool" where
  "conflict_entry_ok pool e =
     (resolveIncludeFolderSet_c (snd e) = candidate_folders (fst e) pool \<and>
      2 \<le> length (resolveIncludeFolderSet_c (snd e)) \<and>
      includeLocationSet (snd e) \<noteq> [])"

definition conflicts_wf :: "pass_state \<Rightarrow> bool" where
  "conflicts_wf st =
     (sorted_wrt path_less (map fst (conflictedIncludeMap (result st))) \<and>
      (\<forall>e \<in> set (conflictedIncludeMap (result st)). conflict_entry_ok (resolveFileMultiMap st) e))"

text \<open>Entries stay, with their folders, and their locations stay.\<close>

definition conflicts_grow :: "(path \<times> ConflictedInclude) list \<Rightarrow> (path \<times> ConflictedInclude) list \<Rightarrow> bool" where
  "conflicts_grow m m' =
     (\<forall>e \<in> set m. \<exists>e' \<in> set m'. fst e' = fst e \<and>
        resolveIncludeFolderSet_c (snd e') = resolveIncludeFolderSet_c (snd e) \<and>
        set (includeLocationSet (snd e)) \<subseteq> set (includeLocationSet (snd e')))"

text \<open>
  A bound on the length the worklist can reach: its length now, and the canonical paths
  that are not in the membership set yet.
\<close>

definition worklist_bound :: "filesystem \<Rightarrow> pass_state \<Rightarrow> nat" where
  "worklist_bound fs st =
     length (cppFileToParseList st) + card (ran (fs_canonical fs) - cppFileToParseSet st)"

text \<open>No file is twice in the worklist, and the membership set holds the files of the worklist.\<close>

definition worklist_distinct :: "pass_state \<Rightarrow> bool" where
  "worklist_distinct st =
     (distinct (cppFileToParseList st) \<and> set (cppFileToParseList st) = cppFileToParseSet st)"

text \<open>A line of a file is recorded as unresolved; is among the locations of a conflict.\<close>

definition unresolved_at :: "IncludeResolverResult \<Rightarrow> path \<Rightarrow> 32 word \<Rightarrow> bool" where
  "unresolved_at res f l = (\<exists>u \<in> set (unresolvedIncludeSet res). filePath u = f \<and> line u = l)"

definition conflicted_at :: "IncludeResolverResult \<Rightarrow> path \<Rightarrow> 32 word \<Rightarrow> bool" where
  "conflicted_at res f l =
     (\<exists>e \<in> set (conflictedIncludeMap res). \<exists>x \<in> set (includeLocationSet (snd e)).
        filePath x = f \<and> line x = l)"

definition recorded_at :: "IncludeResolverResult \<Rightarrow> path \<Rightarrow> 32 word \<Rightarrow> bool" where
  "recorded_at res f l = (unresolved_at res f l \<or> conflicted_at res f l)"

text \<open>No line is recorded in both ways.\<close>

definition exclusive :: "IncludeResolverResult \<Rightarrow> bool" where
  "exclusive res = (\<forall>f l. \<not> (unresolved_at res f l \<and> conflicted_at res f l))"

section \<open>Concrete file systems\<close>

text \<open>
  A file system given by the list of its files with their lines and the list of its
  folders with their entries; every path is canonical already, and the status of every
  path can be read.
\<close>

definition mk_fs :: "(path \<times> string list) list \<Rightarrow> (path \<times> dir_entry list) list \<Rightarrow> filesystem" where
  "mk_fs files folders =
     \<lparr>fs_exists = (\<lambda>p. Some (p \<in> set (map fst files) \<or> p \<in> set (map fst folders))),
      fs_canonical = (\<lambda>p. if p \<in> set (map fst files) \<or> p \<in> set (map fst folders) then Some p else None),
      fs_directory_iterator = map_of folders,
      fs_lines = (\<lambda>p. case map_of files p of None \<Rightarrow> [] | Some lns \<Rightarrow> lns)\<rparr>"

text \<open>The line \<open>#include "t"\<close>.\<close>

definition inc_line :: "string \<Rightarrow> string" where
  "inc_line t = ''#include '' @ [CHR 0x22] @ t @ [CHR 0x22]"

text \<open>
  \<open>fs_B\<close>: two pool folders both hold \<open>config.h\<close>; \<open>main.cpp\<close> includes it at line 2 and
  has none beside it.
\<close>

definition fs_B :: filesystem where
  "fs_B = mk_fs
     [(''/p/main.cpp'', [''// main'', inc_line ''config.h'']),
      (''/r1/config.h'', []),
      (''/r2/config.h'', [])]
     [(''/p'', [File ''/p/main.cpp'']),
      (''/r1'', [File ''/r1/config.h'']),
      (''/r2'', [File ''/r2/config.h''])]"

definition settings_B :: IncludeResolverSettings where
  "settings_B = \<lparr>toParseFolderList = [''/p''], includeFolderList = [], resolveFolderList = [''/r1'', ''/r2'']\<rparr>"

text \<open>On \<open>fs_B\<close>, settings that name folders that are not there, one in each list.\<close>

definition settings_D :: IncludeResolverSettings where
  "settings_D = \<lparr>toParseFolderList = [''/nowhere'', ''/p''], includeFolderList = [''/gone''],
     resolveFolderList = [''/r1'', ''/void'']\<rparr>"

text \<open>The same without the parse folder that is missing.\<close>

definition settings_D' :: IncludeResolverSettings where
  "settings_D' = \<lparr>toParseFolderList = [''/p''], includeFolderList = [''/gone''],
     resolveFolderList = [''/r1'', ''/void'']\<rparr>"

text \<open>On \<open>fs_B\<close>, the parse folder named twice and no pool.\<close>

definition settings_twice :: IncludeResolverSettings where
  "settings_twice = \<lparr>toParseFolderList = [''/p'', ''/p''], includeFolderList = [], resolveFolderList = []\<rparr>"

text \<open>\<open>fs_M\<close>: the only line of \<open>main.cpp\<close> is \<open>#include "missing.h\<close>, with no closing quote.\<close>

definition fs_M :: filesystem where
  "fs_M = mk_fs
     [(''/p/main.cpp'', [''#include '' @ [CHR 0x22] @ ''missing.h''])]
     [(''/p'', [File ''/p/main.cpp''])]"

definition settings_M :: IncludeResolverSettings where
  "settings_M = \<lparr>toParseFolderList = [''/p''], includeFolderList = [], resolveFolderList = []\<rparr>"

text \<open>
  \<open>fs_X\<close>: \<open>a.h\<close> is in the pool folder \<open>/x\<close> only, \<open>b.h\<close> is in \<open>/x\<close> and in \<open>/y\<close>;
  \<open>main.cpp\<close> includes both.
\<close>

definition fs_X :: filesystem where
  "fs_X = mk_fs
     [(''/p/main.cpp'', [inc_line ''a.h'', inc_line ''b.h'']),
      (''/x/a.h'', []), (''/x/b.h'', []), (''/y/b.h'', [])]
     [(''/p'', [File ''/p/main.cpp'']),
      (''/x'', [File ''/x/a.h'', File ''/x/b.h'']),
      (''/y'', [File ''/y/b.h''])]"


text \<open>
  \<open>fs_Q\<close>: \<open>/p/main.cpp\<close>, \<open>/p/second.cpp\<close> and \<open>/q/other.cpp\<close> include \<open>c.h\<close> at
  line 1, and two pool folders hold \<open>c.h\<close>; \<open>other.cpp\<close> has a \<open>c.h\<close> beside it, the
  files in \<open>/p\<close> have not.
\<close>

definition fs_Q :: filesystem where
  "fs_Q = mk_fs
     [(''/p/main.cpp'', [inc_line ''c.h'']),
      (''/p/second.cpp'', [inc_line ''c.h'']),
      (''/q/other.cpp'', [inc_line ''c.h'']),
      (''/q/c.h'', []),
      (''/r1/c.h'', []), (''/r2/c.h'', [])]
     [(''/p'', [File ''/p/main.cpp'', File ''/p/second.cpp'']),
      (''/q'', [File ''/q/other.cpp'', File ''/q/c.h'']),
      (''/r1'', [File ''/r1/c.h'']),
      (''/r2'', [File ''/r2/c.h''])]"

definition settings_Q :: IncludeResolverSettings where
  "settings_Q = \<lparr>toParseFolderList = [''/p'', ''/q''], includeFolderList = [], resolveFolderList = [''/r1'', ''/r2'']\<rparr>"

text \<open>
  \<open>fs_S\<close>: \<open>f.cpp\<close> includes \<open>a//b.h\<close> at line 1 and \<open>a/b.h\<close> at line 2; two pool folders
  hold \<open>a/b.h\<close>. The settings name the parse folder twice.
\<close>

definition fs_S :: filesystem where
  "fs_S = mk_fs
     [(''/d/f.cpp'', [inc_line ''a//b.h'', inc_line ''a/b.h'']),
      (''/r1/a/b.h'', []), (''/r2/a/b.h'', [])]
     [(''/d'', [File ''/d/f.cpp'']),
      (''/r1'', [Directory ''/r1/a'' [File ''/r1/a/b.h'']]),
      (''/r2'', [Directory ''/r2/a'' [File ''/r2/a/b.h'']])]"

definition settings_S :: IncludeResolverSettings where
  "settings_S = \<lparr>toParseFolderList = [''/d'', ''/d''], includeFolderList = [], resolveFolderList = [''/r1'', ''/r2'']\<rparr>"

text \<open>The file system in which the status of the paths \<open>ps\<close> cannot be read.\<close>

definition stat_fails :: "path list \<Rightarrow> filesystem \<Rightarrow> filesystem" where
  "stat_fails ps fs = fs\<lparr>fs_exists := (\<lambda>p. if p \<in> set ps then None else fs_exists fs p)\<rparr>"

text \<open>
  \<open>fs_L\<close>: \<open>main.cpp\<close> includes \<open>sub/b.h\<close> and \<open>locked/a.h\<close>, which are nowhere. The
  folders \<open>/p/locked\<close> and \<open>/w/sub\<close> may not be searched: \<open>exists\<close> throws at
  \<open>/p/locked/a.h\<close> and at \<open>/w/sub/b.h\<close>. The settings give \<open>/v\<close> and \<open>/w\<close> as include
  folders.
\<close>

definition fs_L :: filesystem where
  "fs_L = stat_fails [''/p/locked/a.h'', ''/w/sub/b.h'']
     (mk_fs
        [(''/p/main.cpp'', [inc_line ''sub/b.h'', inc_line ''locked/a.h''])]
        [(''/p'', [File ''/p/main.cpp'']), (''/v'', []), (''/w'', [])])"

definition settings_L :: IncludeResolverSettings where
  "settings_L = \<lparr>toParseFolderList = [''/p''], includeFolderList = [''/v'', ''/w''], resolveFolderList = []\<rparr>"

text \<open>What the first pass in a process returns on \<open>fs_B\<close> with \<open>settings_B\<close>, and the process after it.\<close>

definition result_B :: IncludeResolverResult where
  "result_B =
     \<lparr>invalidPathSet = [], unresolvedIncludeSet = [],
      conflictedIncludeMap =
        [(''config.h'',
          \<lparr>includeLocationSet = [\<lparr>filePath = ''/p/main.cpp'', line = 2\<rparr>],
             resolveIncludeFolderSet_c = [''/r1'', ''/r2'']\<rparr>)],
      resolveIncludeFolderSet = []\<rparr>"

definition process_after_first :: statics where
  "process_after_first =
     \<lparr>activations = 1, addToParse_env = Some 0, findProjectInclude_env = Some 0,
      findInclude_env = Some 0\<rparr>"

text \<open>States in which the worklist loop starts on these file systems, and states like them.\<close>

definition st_Q :: pass_state where
  "st_Q = initial_state fresh_process [''/p/main.cpp'', ''/p/second.cpp'', ''/q/other.cpp'', ''/q/c.h'']
            [''/r1/c.h'', ''/r2/c.h''] empty_result"

definition st_Q_conflict :: pass_state where
  "st_Q_conflict = initial_state fresh_process
     [''/p/main.cpp'', ''/p/second.cpp'', ''/q/other.cpp'', ''/q/c.h'']
     [''/r1/c.h'', ''/r2/c.h'']
     (empty_result\<lparr>conflictedIncludeMap :=
        [(''c.h'', \<lparr>includeLocationSet = [\<lparr>filePath = ''/p/main.cpp'', line = 1\<rparr>],
                     resolveIncludeFolderSet_c = [''/r1'', ''/r2'']\<rparr>)]\<rparr>)"

definition st_X :: pass_state where
  "st_X = initial_state fresh_process [''/p/main.cpp''] [''/x/a.h'', ''/x/b.h'', ''/y/b.h''] empty_result"

definition st_X_known :: pass_state where
  "st_X_known = initial_state fresh_process [''/p/main.cpp''] []
     (empty_result\<lparr>resolveIncludeFolderSet := [''/w'', ''/x'', ''/y'']\<rparr>)"

definition st_M :: pass_state where
  "st_M = initial_state fresh_process [''/p/main.cpp''] [] empty_result"

definition st_L :: pass_state where
  "st_L = initial_state fresh_process [''/p/main.cpp''] []
     (empty_result\<lparr>resolveIncludeFolderSet := [''/v'', ''/w'']\<rparr>)"

text \<open>
  The closures are alive in an activation when each of them is not initialised yet or was
  initialised by this activation.
\<close>

definition closures_alive :: "pass_state \<Rightarrow> bool" where
  "closures_alive st =
     ((addToParse_env st = None \<or> addToParse_env st = Some (frame st)) \<and>
      (findProjectInclude_env st = None \<or> findProjectInclude_env st = Some (frame st)) \<and>
      (findInclude_env st = None \<or> findInclude_env st = Some (frame st)))"

section \<open>Evaluation\<close>

text \<open>
  The equations by which the simplifier runs the worklist loop on a concrete state, and the
  definitions it unfolds.
\<close>

lemma parse_loop_done:
  "\<not> i < length (cppFileToParseList st) \<Longrightarrow> parse_loop fs cb i st obs = Some (Inr (st, obs))"
  by (subst parse_loop.simps) simp

lemma parse_loop_unfold:
  "i < length (cppFileToParseList st) \<Longrightarrow>
   parse_loop fs cb i st obs =
     (case scan_file fs (cppFileToParseList st ! i) st of
        Inl err \<Rightarrow> Some (Inl err)
      | Inr st' \<Rightarrow> parse_loop fs cb (Suc i) st'
          (cb (Suc i) (length (cppFileToParseList st)) (cppFileToParseList st ! i) obs))"
  by (subst parse_loop.simps) (simp add: Let_def cong: sum.case_cong)

lemmas eval_defs = mk_fs_def stat_fails_def inc_line_def start_state_def computeIncludeResolve_def initial_state_def
  empty_result_def updateCppFileList_def isCppFile_def cppExtensionList_def bEndWith_def
  bStartWith_def substr_def find_first_of_def npos_def size_t_sub_def include_of_line_def
  process_line_def scan_file_def process_include_def declare_addToParse_def declare_finders_def
  init_static_def addToParse_def findInclude_def candidate_folders_def findInclude_step_def
  replace_backslash_def findProjectInclude_def filename_def parent_path_def path_join_def
  path_less_def path_equiv_def path_elems_def has_root_directory_def location_less_def
  unresolved_less_def statics_of_def fresh_process_def displayParseStatus_def no_callback_def
  parse_loop_done parse_loop_unfold Let_def

lemmas state_defs = st_Q_def st_Q_conflict_def st_X_def st_X_known_def st_M_def st_L_def
  closures_alive_def

lemma st_Q_start: "start_state fs_Q settings_Q fresh_process = Inr st_Q"
  by (simp add: eval_defs fs_Q_def settings_Q_def st_Q_def)


lemma st_M_start: "start_state fs_M settings_M fresh_process = Inr st_M"
  by (simp add: eval_defs fs_M_def settings_M_def st_M_def)

lemma st_L_start: "start_state fs_L settings_L fresh_process = Inr st_L"
  by (simp add: eval_defs fs_L_def settings_L_def st_L_def)

lemma run_B:
  "computeIncludeResolve fs_B settings_B displayParseStatus [] fresh_process =
     Some (Inr (result_B,
                [(1, 1, ''/p/main.cpp''), (2, 3, ''/r1/config.h''), (3, 3, ''/r2/config.h'')],
                process_after_first))"
  by (simp add: eval_defs fs_B_def settings_B_def result_B_def process_after_first_def)

section \<open>The order of paths\<close>

lemma path_less_irrefl [simp]: "\<not> path_less p p"
  by (simp add: path_less_def)

lemma path_less_trans: "path_less a b \<Longrightarrow> path_less b c \<Longrightarrow> path_less a c"
  by (auto simp: path_less_def split: if_splits)

lemma path_less_asym: "path_less a b \<Longrightarrow> \<not> path_less b a"
  by (auto simp: path_less_def split: if_splits)

lemma path_equiv_refl [simp]: "path_equiv p p"
  by (simp add: path_equiv_def)

lemma path_equiv_iff:
  "path_equiv p q \<longleftrightarrow> has_root_directory p = has_root_directory q \<and> path_elems p = path_elems q"
  by (auto simp: path_equiv_def path_less_def)

lemma sorted_paths_distinct: "sorted_wrt path_less ps \<Longrightarrow> distinct ps"
  by (induction ps) auto

section \<open>Insertion into ordered containers\<close>

lemma set_insert_not_Nil [simp]: "set_insert lt x xs \<noteq> []"
  by (induction xs) auto

lemma set_insert_subset: "set xs \<subseteq> set (set_insert lt x xs)"
  by (induction xs) auto

lemma set_insert_superset: "set (set_insert lt x xs) \<subseteq> insert x (set xs)"
  by (induction xs) auto

lemma set_insert_cases:
  "set (set_insert lt x xs) = set xs \<or> set (set_insert lt x xs) = insert x (set xs)"
  by (induction xs) auto

lemma set_insert_paths_sorted:
  "sorted_wrt path_less ps \<Longrightarrow> sorted_wrt path_less (set_insert path_less p ps)"
proof (induction ps)
  case Nil
  then show ?case by simp
next
  case (Cons q ps)
  show ?case
  proof (cases "path_less p q")
    case True
    with Cons.prems show ?thesis by (auto intro: path_less_trans)
  next
    case False
    show ?thesis
    proof (cases "path_less q p")
      case True
      with False Cons show ?thesis
        using set_insert_superset [of path_less p ps] by auto
    next
      case False
      with \<open>\<not> path_less p q\<close> Cons.prems show ?thesis by simp
    qed
  qed
qed

lemma set_insert_paths_contains:
  "path_set_contains p (set_insert path_less p ps)"
  by (induction ps) (auto simp: path_set_contains_def path_equiv_def)

lemma path_set_contains_insert:
  "path_set_contains p ps \<Longrightarrow> path_set_contains p (set_insert path_less q ps)"
  using set_insert_subset [of ps path_less q] by (auto simp: path_set_contains_def)

lemma set_insert_location_contains:
  "location_set_contains loc (set_insert location_less loc locs)"
proof -
  have irrefl: "\<not> location_less loc loc"
    by (simp add: location_less_def)
  show ?thesis
    by (induction locs) (auto simp: location_set_contains_def irrefl)
qed

lemma candidate_folders_sorted: "sorted_wrt path_less (candidate_folders inc pool)"
proof -
  have "sorted_wrt path_less acc \<Longrightarrow> sorted_wrt path_less (fold (findInclude_step inc) es acc)" for es acc
    by (induction es arbitrary: acc)
      (auto simp: findInclude_step_def set_insert_paths_sorted split: option.splits)
  then show ?thesis by (simp add: candidate_folders_def)
qed

lemma multimap_emplace_set: "set (multimap_emplace k v m) = insert (k, v) (set m)"
  by (induction m) auto

lemma multimap_emplace_sorted:
  "sorted_wrt path_less (map fst m) \<Longrightarrow> multimap_find k m = None \<Longrightarrow>
   sorted_wrt path_less (map fst (multimap_emplace k v m))"
proof (induction m)
  case Nil
  then show ?case by simp
next
  case (Cons e m)
  show ?case
  proof (cases "path_less (fst e) k")
    case True
    with Cons.prems have none: "multimap_find k m = None" by simp
    from True have nk: "\<not> path_less k (fst e)" by (rule path_less_asym)
    from Cons.prems have "sorted_wrt path_less (map fst m)" by simp
    from Cons.IH [OF this none] Cons.prems(1) True nk show ?thesis
      by (auto simp: multimap_emplace_set)
  next
    case False
    with Cons.prems have "path_less k (fst e)" by (simp split: if_splits)
    with Cons.prems(1) show ?thesis by (auto intro: path_less_trans)
  qed
qed

lemma multimap_find_Some:
  "multimap_find k m = Some it \<Longrightarrow> it < length m \<and> path_equiv (fst (m ! it)) k"
proof (induction m arbitrary: it)
  case Nil
  then show ?case by simp
next
  case (Cons e m)
  then show ?case
    by (cases "path_less (fst e) k") (auto simp: path_equiv_def split: if_splits)
qed

lemma multimap_find_None:
  "sorted_wrt path_less (map fst m) \<Longrightarrow> multimap_find k m = None \<Longrightarrow> e \<in> set m \<Longrightarrow>
   \<not> path_equiv (fst e) k"
proof (induction m)
  case Nil
  then show ?case by simp
next
  case (Cons a m)
  show ?case
  proof (cases "path_less (fst a) k")
    case True
    with Cons show ?thesis by (auto simp: path_equiv_def)
  next
    case False
    with Cons.prems have ka: "path_less k (fst a)" by (simp split: if_splits)
    from Cons.prems(3) have "e = a \<or> e \<in> set m" by simp
    then show ?thesis
    proof
      assume "e = a"
      with ka show ?thesis by (simp add: path_equiv_def)
    next
      assume "e \<in> set m"
      with Cons.prems(1) have "path_less (fst a) (fst e)" by auto
      with ka have "path_less k (fst e)" by (rule path_less_trans)
      then show ?thesis by (simp add: path_equiv_def)
    qed
  qed
qed

lemma sorted_keys_unique:
  "sorted_wrt path_less (map fst m) \<Longrightarrow> e \<in> set m \<Longrightarrow> e' \<in> set m \<Longrightarrow>
   path_equiv (fst e) (fst e') \<Longrightarrow> e = e'"
proof (induction m)
  case Nil
  then show ?case by simp
next
  case (Cons a m)
  have no: "\<not> path_equiv (fst a) (fst x)" "\<not> path_equiv (fst x) (fst a)" if "x \<in> set m" for x
    using Cons.prems(1) that by (auto simp: path_equiv_def)
  from Cons.prems(2,3) consider "e = a" "e' = a" | "e = a" "e' \<in> set m" | "e \<in> set m" "e' = a"
    | "e \<in> set m" "e' \<in> set m"
    by auto
  then show ?case
  proof cases
    case 1
    then show ?thesis by simp
  next
    case 2
    with no Cons.prems(4) show ?thesis by blast
  next
    case 3
    with no Cons.prems(4) show ?thesis by blast
  next
    case 4
    with Cons show ?thesis by simp
  qed
qed

lemma map_fst_update_snd:
  "it < length m \<Longrightarrow> map fst (m[it := (fst (m ! it), c)]) = map fst m"
  by (induction m arbitrary: it) (auto split: nat.splits)

lemma findProjectInclude_loop_found:
  "\<forall>x \<in> set dsa. fs_exists fs (path_join x inc) = Some False \<Longrightarrow>
   fs_exists fs (path_join d inc) = Some True \<Longrightarrow>
   findProjectInclude_loop fs inc (dsa @ d # dsb) = Inr (Some (path_join d inc))"
  by (induction dsa) simp_all

lemma findProjectInclude_loop_raises:
  "\<forall>x \<in> set dsa. fs_exists fs (path_join x inc) = Some False \<Longrightarrow>
   fs_exists fs (path_join d inc) = None \<Longrightarrow>
   findProjectInclude_loop fs inc (dsa @ d # dsb) = Inl Filesystem_Error"
  by (induction dsa) simp_all

lemma findProjectInclude_loop_none:
  "\<forall>x \<in> set ds. fs_exists fs (path_join x inc) = Some False \<Longrightarrow>
   findProjectInclude_loop fs inc ds = Inr None"
  by (induction ds) simp_all

lemma findProjectInclude_loop_error:
  "findProjectInclude_loop fs inc ds = Inl e \<Longrightarrow> e = Filesystem_Error"
  by (induction ds) (auto simp: Let_def split: option.splits if_splits)

section \<open>What one include directive changes\<close>

lemma addToParse_result:
  "addToParse fs p st = Inr st' \<Longrightarrow> result st' = result st"
  by (auto simp: addToParse_def split: if_splits option.splits)

lemma declare_result [simp]:
  "result (declare_addToParse st) = result st"
  "result (declare_finders st) = result st"
  "resolveFileMultiMap (declare_addToParse st) = resolveFileMultiMap st"
  "resolveFileMultiMap (declare_finders st) = resolveFileMultiMap st"
  "frame (declare_addToParse st) = frame st"
  "frame (declare_finders st) = frame st"
  by (simp_all add: declare_addToParse_def declare_finders_def)

lemma declared_fields [simp]:
  "result (declare_addToParse st) = result st"
  "result (declare_finders st) = result st"
  "resolveFileMultiMap (declare_addToParse st) = resolveFileMultiMap st"
  "resolveFileMultiMap (declare_finders st) = resolveFileMultiMap st"
  by (simp_all add: declare_addToParse_def declare_finders_def)

lemma addToParse_frame:
  "addToParse fs p st = Inr st' \<Longrightarrow>
   result st' = result st \<and> resolveFileMultiMap st' = resolveFileMultiMap st"
  by (auto simp: addToParse_def split: if_splits option.splits)

lemma addToParse_each_frame:
  "addToParse_each fs inc ds st = Inr st' \<Longrightarrow>
   result st' = result st \<and> resolveFileMultiMap st' = resolveFileMultiMap st"
proof (induction ds arbitrary: st)
  case Nil
  then show ?case by simp
next
  case (Cons d ds)
  then obtain st1 where a: "addToParse fs (path_join d inc) st = Inr st1"
    and b: "addToParse_each fs inc ds st1 = Inr st'"
    by (auto split: sum.splits)
  from addToParse_frame [OF a] Cons.IH [OF b] show ?case by simp
qed

lemma findInclude_Inr:
  "findInclude inc st = Inr ds \<Longrightarrow> ds = candidate_folders inc (resolveFileMultiMap st)"
  by (auto simp: findInclude_def split: if_splits)

lemma alive_findInclude:
  "closures_alive st \<Longrightarrow> findInclude inc (declare_finders (declare_addToParse st)) = Inr (candidate_folders inc (resolveFileMultiMap st))"
  by (auto simp: closures_alive_def findInclude_def declare_finders_def declare_addToParse_def init_static_def)

lemma alive_findProjectInclude:
  "closures_alive st \<Longrightarrow> findProjectInclude fs inc (declare_finders (declare_addToParse st)) =
     findProjectInclude_loop fs inc (resolveIncludeFolderSet (result st))"
  by (auto simp: closures_alive_def findProjectInclude_def declare_finders_def declare_addToParse_def init_static_def)

lemma process_include_pool:
  assumes "process_include fs f l inc st = Inr st'"
  shows "resolveFileMultiMap st' = resolveFileMultiMap st"
  using assms
  by (auto simp: process_include_def Let_def
      split: if_splits option.splits sum.splits
      dest!: addToParse_frame addToParse_each_frame)

lemma process_include_cases:
  assumes "process_include fs f l inc st = Inr st'"
  obtains
    (relative) "fs_exists fs (path_join (parent_path f) inc) = Some True" "result st' = result st"
  | (continuation) it where "fs_exists fs (path_join (parent_path f) inc) = Some False"
      "multimap_find inc (conflictedIncludeMap (result st)) = Some it"
      "result st' = (result st)\<lparr>conflictedIncludeMap :=
         (conflictedIncludeMap (result st))
           [it := (fst (conflictedIncludeMap (result st) ! it),
                   (snd (conflictedIncludeMap (result st) ! it))
                     \<lparr>includeLocationSet :=
                        set_insert location_less \<lparr>filePath = f, line = l\<rparr>
                          (includeLocationSet (snd (conflictedIncludeMap (result st) ! it)))\<rparr>)]\<rparr>"
      "cppFileToParseList st' = cppFileToParseList st"
  | (single) d where "fs_exists fs (path_join (parent_path f) inc) = Some False"
      "multimap_find inc (conflictedIncludeMap (result st)) = None"
      "candidate_folders inc (resolveFileMultiMap st) = [d]"
      "result st' = (result st)\<lparr>resolveIncludeFolderSet :=
         set_insert path_less d (resolveIncludeFolderSet (result st))\<rparr>"
  | (conflict) "fs_exists fs (path_join (parent_path f) inc) = Some False"
      "multimap_find inc (conflictedIncludeMap (result st)) = None"
      "2 \<le> length (candidate_folders inc (resolveFileMultiMap st))"
      "result st' = (result st)\<lparr>conflictedIncludeMap :=
         multimap_emplace inc
           \<lparr>includeLocationSet = [\<lparr>filePath = f, line = l\<rparr>],
              resolveIncludeFolderSet_c = candidate_folders inc (resolveFileMultiMap st)\<rparr>
           (conflictedIncludeMap (result st))\<rparr>"
  | (fallback) "fs_exists fs (path_join (parent_path f) inc) = Some False"
      "multimap_find inc (conflictedIncludeMap (result st)) = None"
      "candidate_folders inc (resolveFileMultiMap st) = []"
      "result st' = result st"
  | (unresolved) "fs_exists fs (path_join (parent_path f) inc) = Some False"
      "multimap_find inc (conflictedIncludeMap (result st)) = None"
      "candidate_folders inc (resolveFileMultiMap st) = []"
      "result st' = (result st)\<lparr>unresolvedIncludeSet :=
         set_insert unresolved_less \<lparr>filePath = f, line = l, includeText = inc\<rparr>
           (unresolvedIncludeSet (result st))\<rparr>"
      "cppFileToParseList st' = cppFileToParseList st"
proof -
  from assms obtain beside where ex: "fs_exists fs (path_join (parent_path f) inc) = Some beside"
    by (auto simp: process_include_def Let_def split: option.splits)
  show ?thesis
  proof (cases beside)
  case True
  with ex have True: "fs_exists fs (path_join (parent_path f) inc) = Some True" by simp
  with assms have "addToParse fs (path_join (parent_path f) inc) (declare_addToParse st) = Inr st'"
    by (simp add: process_include_def)
  from addToParse_frame [OF this] True show ?thesis by (intro relative) simp_all
next
  case False
  with ex have nrel: "fs_exists fs (path_join (parent_path f) inc) = Some False" by simp
  let ?st2 = "declare_finders (declare_addToParse st)"
  show ?thesis
  proof (cases "multimap_find inc (conflictedIncludeMap (result st))")
    case (Some it)
    with nrel assms show ?thesis
      by (intro continuation [of it])
        (auto simp: process_include_def Let_def declare_finders_def declare_addToParse_def)
  next
    case None
    with nrel assms obtain ds where fi: "findInclude inc ?st2 = Inr ds"
      by (auto simp: process_include_def Let_def split: sum.splits)
    from findInclude_Inr [OF fi] have ds: "ds = candidate_folders inc (resolveFileMultiMap st)" by simp
    show ?thesis
    proof (cases "ds = []")
      case False
      show ?thesis
      proof (cases "length ds = 1")
        case True
        then obtain d where d: "ds = [d]" by (cases ds) auto
        with nrel None fi assms have "addToParse fs (path_join d inc)
            (?st2\<lparr>result := (result ?st2)\<lparr>resolveIncludeFolderSet :=
               set_insert path_less d (resolveIncludeFolderSet (result ?st2))\<rparr>\<rparr>) = Inr st'"
          by (simp add: process_include_def Let_def)
        from addToParse_frame [OF this] nrel None d ds show ?thesis
          by (intro single [of d]) simp_all
      next
        case ne1: False
        with False have two: "2 \<le> length ds"
          by (cases ds) (auto simp: Suc_le_eq)
        from nrel None fi assms False ne1 have "addToParse_each fs inc ds
            (?st2\<lparr>result := (result ?st2)\<lparr>conflictedIncludeMap :=
               multimap_emplace inc
                 \<lparr>includeLocationSet = set_insert location_less \<lparr>filePath = f, line = l\<rparr> [],
                    resolveIncludeFolderSet_c = ds\<rparr>
                 (conflictedIncludeMap (result ?st2))\<rparr>\<rparr>) = Inr st'"
          by (simp add: process_include_def Let_def)
        from addToParse_each_frame [OF this] nrel None two ds show ?thesis
          by (intro conflict) simp_all
      qed
    next
      case True
      with nrel None fi assms obtain r where fp: "findProjectInclude fs inc ?st2 = Inr r"
        by (auto simp: process_include_def Let_def split: sum.splits)
      show ?thesis
      proof (cases r)
        case (Some fileFound)
        with nrel None fi True fp assms have "addToParse fs fileFound ?st2 = Inr st'"
          by (simp add: process_include_def Let_def)
        from addToParse_frame [OF this] nrel None True ds show ?thesis
          by (intro fallback) simp_all
      next
        case rn: None
        with nrel None fi True fp assms show ?thesis
          by (intro unresolved)
            (auto simp: process_include_def Let_def ds declare_finders_def declare_addToParse_def)
      qed
    qed
  qed
qed
qed

lemma addToParse_worklist:
  "addToParse fs p st = Inr st' \<Longrightarrow> \<exists>ys. cppFileToParseList st' = cppFileToParseList st @ ys"
  by (auto simp: addToParse_def split: if_splits option.splits)

lemma addToParse_each_worklist:
  "addToParse_each fs inc ds st = Inr st' \<Longrightarrow> \<exists>ys. cppFileToParseList st' = cppFileToParseList st @ ys"
proof (induction ds arbitrary: st)
  case Nil
  then show ?case by simp
next
  case (Cons d ds)
  then obtain st1 where a: "addToParse fs (path_join d inc) st = Inr st1"
    and b: "addToParse_each fs inc ds st1 = Inr st'"
    by (auto split: sum.splits)
  from addToParse_worklist [OF a] Cons.IH [OF b] show ?case by auto
qed

lemma process_include_worklist:
  assumes "process_include fs f l inc st = Inr st'"
  shows "\<exists>ys. cppFileToParseList st' = cppFileToParseList st @ ys"
proof -
  have d [simp]: "cppFileToParseList (declare_finders (declare_addToParse st)) = cppFileToParseList st"
    "cppFileToParseList (declare_addToParse st) = cppFileToParseList st"
    by (simp_all add: declare_finders_def declare_addToParse_def)
  from assms show ?thesis
    by (auto simp: process_include_def Let_def
        split: if_splits option.splits sum.splits
        dest!: addToParse_worklist addToParse_each_worklist)
qed

section \<open>Steps of a pass\<close>

lemma pass_steps_trans:
  "pass_steps fs b c \<Longrightarrow> pass_steps fs a b \<Longrightarrow> pass_steps fs a c"
  by (induction rule: pass_steps.induct) (auto intro: pass_steps.intros)

lemma process_line_steps:
  "process_line fs f l ln st = Inr st' \<Longrightarrow> pass_steps fs st st'"
  by (auto simp: process_line_def split: option.splits intro: pass_steps.intros)

lemma scan_lines_steps:
  "scan_lines fs f l lns st = Inr st' \<Longrightarrow> pass_steps fs st st'"
proof (induction lns arbitrary: l st)
  case Nil
  then show ?case by (simp add: pass_refl)
next
  case (Cons ln lns)
  then obtain st1 where a: "process_line fs f l ln st = Inr st1"
    and b: "scan_lines fs f (l + 1) lns st1 = Inr st'"
    by (auto split: sum.splits)
  from Cons.IH [OF b] process_line_steps [OF a] show ?case
    by (rule pass_steps_trans)
qed

lemma scan_file_steps:
  "scan_file fs f st = Inr st' \<Longrightarrow> pass_steps fs st st'"
  unfolding scan_file_def by (rule scan_lines_steps)

lemma parse_loop_steps_aux:
  assumes "parse_loop fs cb i st obs = Some r"
  shows "\<forall>st' obs'. r = Inr (st', obs') \<longrightarrow> pass_steps fs st st'"
proof (rule parse_loop.raw_induct
    [where P = "\<lambda>fs cb i st obs r. \<forall>st' obs'. r = Inr (st', obs') \<longrightarrow> pass_steps fs st st'", OF _ assms],
    goal_cases)
  case (1 pl fs cb i st obs r)
  show ?case
  proof (intro allI impI)
    fix st' obs'
    assume r: "r = Inr (st', obs')"
    show "pass_steps fs st st'"
    proof (cases "i < length (cppFileToParseList st)")
      case True
      with 1(2) r obtain st1 where a: "scan_file fs (cppFileToParseList st ! i) st = Inr st1"
        and b: "pl fs cb (i + 1) st1 (cb (i + 1) (length (cppFileToParseList st)) (cppFileToParseList st ! i) obs)
                 = Some (Inr (st', obs'))"
        by (auto simp: Let_def split: sum.splits)
      from 1(1) [OF b] have "pass_steps fs st1 st'" by simp
      from this scan_file_steps [OF a] show ?thesis
        by (rule pass_steps_trans)
    next
      case False
      with 1(2) r show ?thesis by (simp add: pass_refl)
    qed
  qed
qed

lemma parse_loop_steps:
  "parse_loop fs cb i st obs = Some (Inr (st', obs')) \<Longrightarrow> pass_steps fs st st'"
  using parse_loop_steps_aux [of fs cb i st obs "Inr (st', obs')"] by simp

lemma pass_steps_worklist:
  "pass_steps fs st st' \<Longrightarrow> \<exists>ys. cppFileToParseList st' = cppFileToParseList st @ ys"
  by (induction rule: pass_steps.induct) (auto dest!: process_include_worklist)

lemma state_after_steps:
  "state_after fs j st0 = Inr s \<Longrightarrow> j \<le> k \<Longrightarrow> state_after fs k st0 = Inr s' \<Longrightarrow> pass_steps fs s s'"
proof (induction k arbitrary: s')
  case 0
  then show ?case by (simp add: pass_refl)
next
  case (Suc k)
  show ?case
  proof (cases "j = Suc k")
    case True
    with Suc.prems show ?thesis by (simp add: pass_refl)
  next
    case False
    with Suc.prems have jk: "j \<le> k" by simp
    from Suc.prems(3) obtain s1 where s1: "state_after fs k st0 = Inr s1"
      and s': "(if k < length (cppFileToParseList s1) then scan_file fs (cppFileToParseList s1 ! k) s1
                else Inr s1) = Inr s'"
      by (auto split: sum.splits)
    from Suc.IH [OF Suc.prems(1) jk s1] have a: "pass_steps fs s s1" .
    from s' have "pass_steps fs s1 s'"
      by (auto split: if_splits intro: scan_file_steps pass_refl)
    from this a show ?thesis by (rule pass_steps_trans)
  qed
qed

lemma computeIncludeResolve_Inr:
  assumes "computeIncludeResolve fs settings cb obs proc = Some (Inr (res, obs', proc'))"
  shows "\<exists>st0 st'. start_state fs settings proc = Inr st0 \<and>
           parse_loop fs cb 0 st0 obs = Some (Inr (st', obs')) \<and> res = result st' \<and>
           proc' = statics_of st'"
proof (cases "start_state fs settings proc")
  case (Inl e)
  with assms show ?thesis by (simp add: computeIncludeResolve_def)
next
  case (Inr st0)
  with assms obtain z where z: "parse_loop fs cb 0 st0 obs = Some z"
    and m: "map_sum id (\<lambda>(st, obs'). (result st, obs', statics_of st)) z = Inr (res, obs', proc')"
    by (auto simp: computeIncludeResolve_def)
  from m obtain st' where "z = Inr (st', obs')" "res = result st'" "proc' = statics_of st'"
    by (cases z) auto
  with z Inr show ?thesis by simp
qed

lemma computeIncludeResolve_steps:
  assumes "computeIncludeResolve fs settings cb obs proc = Some (Inr (res, obs', proc'))"
  shows "\<exists>st0 st'. start_state fs settings proc = Inr st0 \<and> pass_steps fs st0 st' \<and> res = result st'"
proof -
  from computeIncludeResolve_Inr [OF assms] obtain st0 st' where
    a: "start_state fs settings proc = Inr st0"
    and b: "parse_loop fs cb 0 st0 obs = Some (Inr (st', obs'))" and c: "res = result st'"
    by blast
  from a parse_loop_steps [OF b] c show ?thesis by blast
qed

section \<open>The state at the start\<close>

lemma seedIncludeFolders_fields:
  "seedIncludeFolders fs folders res = Inr res' \<Longrightarrow>
   conflictedIncludeMap res' = conflictedIncludeMap res \<and>
   unresolvedIncludeSet res' = unresolvedIncludeSet res"
  by (induction folders arbitrary: res) (auto split: if_splits option.splits)

lemma seedResolveFolders_fields:
  "seedResolveFolders fs folders files res = Inr (files', res') \<Longrightarrow>
   conflictedIncludeMap res' = conflictedIncludeMap res \<and>
   unresolvedIncludeSet res' = unresolvedIncludeSet res"
  by (induction folders arbitrary: files res) (auto split: if_splits option.splits sum.splits)

lemma start_state_fields:
  assumes "start_state fs settings proc = Inr st0"
  shows "conflictedIncludeMap (result st0) = []" and "unresolvedIncludeSet (result st0) = []"
    and "frame st0 = activations proc" and "addToParse_env st0 = addToParse_env proc"
    and "findProjectInclude_env st0 = findProjectInclude_env proc"
    and "findInclude_env st0 = findInclude_env proc"
  using assms
  by (auto simp: start_state_def initial_state_def empty_result_def
      split: sum.splits dest!: seedIncludeFolders_fields seedResolveFolders_fields)

lemma updateCppFileList_entries_error:
  "updateCppFileList_entry fs en acc = Inl e \<Longrightarrow> e = Filesystem_Error"
  "updateCppFileList_entries fs es acc = Inl e \<Longrightarrow> e = Filesystem_Error"
  by (induction fs en acc and fs es acc rule: updateCppFileList_entry_updateCppFileList_entries.induct)
    (auto split: if_splits option.splits sum.splits)

lemma updateCppFileList_error:
  "updateCppFileList fs folderPath acc = Inl e \<Longrightarrow> e = Filesystem_Error"
  by (auto simp: updateCppFileList_def split: option.splits dest: updateCppFileList_entries_error)

lemma seedParseFolders_error:
  "seedParseFolders fs folders acc = Inl e \<Longrightarrow> e = Filesystem_Error"
  by (induction folders arbitrary: acc) (auto split: sum.splits dest: updateCppFileList_error)

lemma seedIncludeFolders_error:
  "seedIncludeFolders fs folders res = Inl e \<Longrightarrow> e = Filesystem_Error"
  by (induction folders arbitrary: res) (auto split: if_splits option.splits)

lemma seedResolveFolders_error:
  "seedResolveFolders fs folders files res = Inl e \<Longrightarrow> e = Filesystem_Error"
  by (induction folders arbitrary: files res)
    (auto split: if_splits option.splits sum.splits dest: updateCppFileList_error)

lemma start_state_error:
  "start_state fs settings proc = Inl e \<Longrightarrow> e = Filesystem_Error"
  by (auto simp: start_state_def split: sum.splits
      dest: seedParseFolders_error seedIncludeFolders_error seedResolveFolders_error)

section \<open>The conflict map stays well formed\<close>

lemma start_state_wf: "start_state fs settings proc = Inr st0 \<Longrightarrow> conflicts_wf st0"
  by (simp add: conflicts_wf_def start_state_fields)

lemma process_include_wf:
  assumes step: "process_include fs f l inc st = Inr st'" and wf: "conflicts_wf st"
  shows "conflicts_wf st'"
proof -
  note pool = process_include_pool [OF step]
  from wf have sorted: "sorted_wrt path_less (map fst (conflictedIncludeMap (result st)))"
    and ok: "\<And>e. e \<in> set (conflictedIncludeMap (result st)) \<Longrightarrow>
               conflict_entry_ok (resolveFileMultiMap st) e"
    by (auto simp: conflicts_wf_def)
  from step show ?thesis
  proof (cases rule: process_include_cases)
    case relative
    with wf pool show ?thesis by (simp add: conflicts_wf_def)
  next
    case (continuation it)
    let ?m = "conflictedIncludeMap (result st)"
    let ?x = "(fst (?m ! it), (snd (?m ! it))\<lparr>includeLocationSet :=
                 set_insert location_less \<lparr>filePath = f, line = l\<rparr>
                   (includeLocationSet (snd (?m ! it)))\<rparr>)"
    from multimap_find_Some [OF continuation(2)] have it: "it < length ?m" by simp
    then have "conflict_entry_ok (resolveFileMultiMap st) (?m ! it)" by (simp add: ok)
    then have x: "conflict_entry_ok (resolveFileMultiMap st) ?x"
      by (auto simp: conflict_entry_ok_def)
    have "\<And>e. e \<in> set (?m[it := ?x]) \<Longrightarrow> conflict_entry_ok (resolveFileMultiMap st) e"
      using x ok set_update_subset_insert [of ?m it ?x] by blast
    with sorted it continuation(3) pool show ?thesis
      by (simp add: conflicts_wf_def map_fst_update_snd)
  next
    case (single d)
    with wf pool show ?thesis by (simp add: conflicts_wf_def)
  next
    case conflict
    let ?c = "\<lparr>includeLocationSet = [\<lparr>filePath = f, line = l\<rparr>],
                resolveIncludeFolderSet_c = candidate_folders inc (resolveFileMultiMap st)\<rparr>"
    from conflict(3) have "conflict_entry_ok (resolveFileMultiMap st) (inc, ?c)"
      by (simp add: conflict_entry_ok_def)
    with ok multimap_emplace_sorted [OF sorted conflict(2), of ?c] conflict(4) pool show ?thesis
      by (auto simp: conflicts_wf_def multimap_emplace_set)
  next
    case fallback
    with wf pool show ?thesis by (simp add: conflicts_wf_def)
  next
    case unresolved
    with wf pool show ?thesis by (simp add: conflicts_wf_def)
  qed
qed

lemma pass_steps_wf:
  "pass_steps fs st st' \<Longrightarrow> conflicts_wf st \<Longrightarrow> conflicts_wf st'"
  by (induction rule: pass_steps.induct) (auto intro: process_include_wf)


lemma conflicts_grow_refl: "conflicts_grow m m"
  by (auto simp: conflicts_grow_def)

lemma conflicts_grow_trans:
  assumes "conflicts_grow m1 m2" and "conflicts_grow m2 m3"
  shows "conflicts_grow m1 m3"
  unfolding conflicts_grow_def
proof
  fix e assume "e \<in> set m1"
  with assms(1) obtain e2 where e2: "e2 \<in> set m2" "fst e2 = fst e"
    "resolveIncludeFolderSet_c (snd e2) = resolveIncludeFolderSet_c (snd e)"
    "set (includeLocationSet (snd e)) \<subseteq> set (includeLocationSet (snd e2))"
    unfolding conflicts_grow_def by blast
  with assms(2) obtain e3 where e3: "e3 \<in> set m3" "fst e3 = fst e2"
    "resolveIncludeFolderSet_c (snd e3) = resolveIncludeFolderSet_c (snd e2)"
    "set (includeLocationSet (snd e2)) \<subseteq> set (includeLocationSet (snd e3))"
    unfolding conflicts_grow_def by blast
  from e2 e3 show "\<exists>e' \<in> set m3. fst e' = fst e \<and>
        resolveIncludeFolderSet_c (snd e') = resolveIncludeFolderSet_c (snd e) \<and>
        set (includeLocationSet (snd e)) \<subseteq> set (includeLocationSet (snd e'))"
    by (intro bexI [of _ e3]) auto
qed

lemma conflicts_grow_update:
  assumes "it < length m"
  shows "conflicts_grow m
     (m[it := (fst (m ! it), (snd (m ! it))\<lparr>includeLocationSet :=
         set_insert location_less loc (includeLocationSet (snd (m ! it)))\<rparr>)])"
    (is "conflicts_grow m (m[it := ?x])")
  unfolding conflicts_grow_def
proof
  fix e assume "e \<in> set m"
  then obtain j where j: "j < length m" "m ! j = e" by (auto simp: in_set_conv_nth)
  show "\<exists>e' \<in> set (m[it := ?x]). fst e' = fst e \<and>
        resolveIncludeFolderSet_c (snd e') = resolveIncludeFolderSet_c (snd e) \<and>
        set (includeLocationSet (snd e)) \<subseteq> set (includeLocationSet (snd e'))"
  proof (cases "j = it")
    case True
    have "?x \<in> set (m[it := ?x])" using assms by (rule set_update_memI)
    moreover from True j have "fst ?x = fst e"
      "resolveIncludeFolderSet_c (snd ?x) = resolveIncludeFolderSet_c (snd e)"
      "set (includeLocationSet (snd e)) \<subseteq> set (includeLocationSet (snd ?x))"
      using set_insert_subset [of "includeLocationSet (snd e)" location_less loc] by auto
    ultimately show ?thesis by blast
  next
    case False
    with j have "(m[it := ?x]) ! j = e" by simp
    with j have "e \<in> set (m[it := ?x])" by (metis length_list_update nth_mem)
    then show ?thesis by blast
  qed
qed

lemma process_include_conflicts_grow:
  assumes "process_include fs f l inc st = Inr st'"
  shows "conflicts_grow (conflictedIncludeMap (result st)) (conflictedIncludeMap (result st'))"
  using assms
proof (cases rule: process_include_cases)
  case (continuation it)
  from multimap_find_Some [OF continuation(2)] have "it < length (conflictedIncludeMap (result st))"
    by simp
  from conflicts_grow_update [OF this] continuation(3) show ?thesis by simp
next
  case conflict
  then show ?thesis by (auto simp: conflicts_grow_def multimap_emplace_set)
qed (simp_all add: conflicts_grow_refl)

lemma pass_steps_conflicts_grow:
  "pass_steps fs st st' \<Longrightarrow>
   conflicts_grow (conflictedIncludeMap (result st)) (conflictedIncludeMap (result st'))"
  by (induction rule: pass_steps.induct)
    (auto intro: conflicts_grow_refl conflicts_grow_trans dest: process_include_conflicts_grow)



section \<open>The worklist has no file twice unless it is seeded twice\<close>

lemma addToParse_distinct:
  "addToParse fs p st = Inr st' \<Longrightarrow> worklist_distinct st \<Longrightarrow> worklist_distinct st'"
  by (auto simp: addToParse_def worklist_distinct_def split: if_splits option.splits)

lemma addToParse_each_distinct:
  "addToParse_each fs inc ds st = Inr st' \<Longrightarrow> worklist_distinct st \<Longrightarrow> worklist_distinct st'"
proof (induction ds arbitrary: st)
  case Nil
  then show ?case by simp
next
  case (Cons d ds)
  then obtain st1 where a: "addToParse fs (path_join d inc) st = Inr st1"
    and b: "addToParse_each fs inc ds st1 = Inr st'"
    by (auto split: sum.splits)
  from Cons.IH [OF b addToParse_distinct [OF a Cons.prems(2)]] show ?case .
qed

lemma process_include_distinct:
  assumes step: "process_include fs f l inc st = Inr st'" and inv: "worklist_distinct st"
  shows "worklist_distinct st'"
proof -
  have d: "worklist_distinct (declare_addToParse st)"
    "worklist_distinct (declare_finders (declare_addToParse st))"
    "\<And>r. worklist_distinct ((declare_finders (declare_addToParse st))\<lparr>result := r\<rparr>)"
    using inv by (simp_all add: worklist_distinct_def declare_finders_def declare_addToParse_def)
  from step show ?thesis
    by (auto simp: process_include_def Let_def
        split: if_splits option.splits sum.splits
        intro: addToParse_distinct addToParse_each_distinct d)
qed

lemma pass_steps_distinct:
  "pass_steps fs st st' \<Longrightarrow> worklist_distinct st \<Longrightarrow> worklist_distinct st'"
  by (induction rule: pass_steps.induct) (auto intro: process_include_distinct)

section \<open>The closures in the first activation of a process\<close>

lemma addToParse_alive:
  "addToParse fs p st = Inr st' \<Longrightarrow> closures_alive st \<Longrightarrow> closures_alive st'"
  by (auto simp: addToParse_def closures_alive_def split: if_splits option.splits)

lemma addToParse_each_alive:
  "addToParse_each fs inc ds st = Inr st' \<Longrightarrow> closures_alive st \<Longrightarrow> closures_alive st'"
proof (induction ds arbitrary: st)
  case Nil
  then show ?case by simp
next
  case (Cons d ds)
  then obtain st1 where a: "addToParse fs (path_join d inc) st = Inr st1"
    and b: "addToParse_each fs inc ds st1 = Inr st'"
    by (auto split: sum.splits)
  from Cons.IH [OF b addToParse_alive [OF a Cons.prems(2)]] show ?case .
qed

lemma process_include_alive:
  assumes step: "process_include fs f l inc st = Inr st'" and alive: "closures_alive st"
  shows "closures_alive st'"
proof -
  have d: "closures_alive (declare_addToParse st)"
    "closures_alive (declare_finders (declare_addToParse st))"
    "\<And>r. closures_alive ((declare_finders (declare_addToParse st))\<lparr>result := r\<rparr>)"
    using alive
    by (auto simp: closures_alive_def declare_finders_def declare_addToParse_def init_static_def)
  from step show ?thesis
    by (auto simp: process_include_def Let_def
        split: if_splits option.splits sum.splits
        intro: addToParse_alive addToParse_each_alive d)
qed

lemma pass_steps_alive:
  "pass_steps fs st st' \<Longrightarrow> closures_alive st \<Longrightarrow> closures_alive st'"
  by (induction rule: pass_steps.induct) (auto intro: process_include_alive)

lemma first_activation_alive:
  assumes "start_state fs settings fresh_process = Inr st0" and "pass_steps fs st0 st"
  shows "closures_alive st"
proof -
  from start_state_fields [OF assms(1)] have "closures_alive st0"
    by (simp add: closures_alive_def fresh_process_def)
  with assms(2) show ?thesis by (rule pass_steps_alive)
qed

section \<open>What the callback is given\<close>

lemma parse_loop_trace_aux:
  assumes "parse_loop fs cb i st obs = Some r"
  shows "\<forall>st' obs'. r = Inr (st', obs') \<longrightarrow> state_after fs i st0 = Inr st \<longrightarrow>
           i \<le> length (cppFileToParseList st) \<longrightarrow>
           i \<le> length (cppFileToParseList st') \<and>
           state_after fs (length (cppFileToParseList st')) st0 = Inr st' \<and>
           obs' = fold (\<lambda>k. run_callback cb (callback_args fs st0 k)) [i..<length (cppFileToParseList st')] obs \<and>
           (\<forall>k. i \<le> k \<and> k < length (cppFileToParseList st') \<longrightarrow>
              (\<exists>s. state_after fs k st0 = Inr s \<and> k < length (cppFileToParseList s) \<and>
                   cppFileToParseList s ! k = cppFileToParseList st' ! k))"
proof (rule parse_loop.raw_induct
    [where P = "\<lambda>fs cb i st obs r. \<forall>st' obs'. r = Inr (st', obs') \<longrightarrow> state_after fs i st0 = Inr st \<longrightarrow>
           i \<le> length (cppFileToParseList st) \<longrightarrow>
           i \<le> length (cppFileToParseList st') \<and>
           state_after fs (length (cppFileToParseList st')) st0 = Inr st' \<and>
           obs' = fold (\<lambda>k. run_callback cb (callback_args fs st0 k)) [i..<length (cppFileToParseList st')] obs \<and>
           (\<forall>k. i \<le> k \<and> k < length (cppFileToParseList st') \<longrightarrow>
              (\<exists>s. state_after fs k st0 = Inr s \<and> k < length (cppFileToParseList s) \<and>
                   cppFileToParseList s ! k = cppFileToParseList st' ! k))", OF _ assms],
    goal_cases)
  case (1 pl fs cb i st obs r)
  show ?case
  proof (intro allI impI)
    fix st' obs'
    assume r: "r = Inr (st', obs')" and sa: "state_after fs i st0 = Inr st"
      and le: "i \<le> length (cppFileToParseList st)"
    let ?n = "length (cppFileToParseList st')"
    show "i \<le> ?n \<and> state_after fs ?n st0 = Inr st' \<and>
           obs' = fold (\<lambda>k. run_callback cb (callback_args fs st0 k)) [i..<?n] obs \<and>
           (\<forall>k. i \<le> k \<and> k < ?n \<longrightarrow>
              (\<exists>s. state_after fs k st0 = Inr s \<and> k < length (cppFileToParseList s) \<and>
                   cppFileToParseList s ! k = cppFileToParseList st' ! k))"
    proof (cases "i < length (cppFileToParseList st)")
      case False
      with 1(2) r le sa show ?thesis by auto
    next
      case True
      let ?obs1 = "cb (i + 1) (length (cppFileToParseList st)) (cppFileToParseList st ! i) obs"
      from True 1(2) r obtain st1 where a: "scan_file fs (cppFileToParseList st ! i) st = Inr st1"
        and b: "pl fs cb (i + 1) st1 ?obs1 = Some (Inr (st', obs'))"
        by (auto simp: Let_def split: sum.splits)
      from a sa True have sa1: "state_after fs (i + 1) st0 = Inr st1" by simp
      from pass_steps_worklist [OF scan_file_steps [OF a]] obtain ys where
        ys: "cppFileToParseList st1 = cppFileToParseList st @ ys" by blast
      with True have le1: "i + 1 \<le> length (cppFileToParseList st1)" by simp
      from 1(1) [OF b] sa1 le1 have ih:
        "i + 1 \<le> ?n" "state_after fs ?n st0 = Inr st'"
        "obs' = fold (\<lambda>k. run_callback cb (callback_args fs st0 k)) [i + 1..<?n] ?obs1"
        "\<forall>k. i + 1 \<le> k \<and> k < ?n \<longrightarrow>
              (\<exists>s. state_after fs k st0 = Inr s \<and> k < length (cppFileToParseList s) \<and>
                   cppFileToParseList s ! k = cppFileToParseList st' ! k)"
        by auto
      have args: "run_callback cb (callback_args fs st0 i) obs = ?obs1"
        using sa by (simp add: run_callback_def callback_args_def)
      from ih(1) have upt: "[i..<?n] = i # [i + 1..<?n]"
        by (simp add: upt_conv_Cons)
      from state_after_steps [OF sa _ ih(2)] ih(1) have "pass_steps fs st st'" by simp
      from pass_steps_worklist [OF this] obtain zs where
        zs: "cppFileToParseList st' = cppFileToParseList st @ zs" by blast
      have first: "\<exists>s. state_after fs i st0 = Inr s \<and> i < length (cppFileToParseList s) \<and>
                   cppFileToParseList s ! i = cppFileToParseList st' ! i"
        using sa True zs by (simp add: nth_append)
      have all: "\<forall>k. i \<le> k \<and> k < ?n \<longrightarrow>
              (\<exists>s. state_after fs k st0 = Inr s \<and> k < length (cppFileToParseList s) \<and>
                   cppFileToParseList s ! k = cppFileToParseList st' ! k)"
      proof (intro allI impI)
        fix k assume k: "i \<le> k \<and> k < ?n"
        show "\<exists>s. state_after fs k st0 = Inr s \<and> k < length (cppFileToParseList s) \<and>
                   cppFileToParseList s ! k = cppFileToParseList st' ! k"
        proof (cases "k = i")
          case True
          with first show ?thesis by simp
        next
          case False
          with k have "i + 1 \<le> k \<and> k < ?n" by simp
          with ih(4) show ?thesis by blast
        qed
      qed
      have "obs' = fold (\<lambda>k. run_callback cb (callback_args fs st0 k)) [i..<?n] obs"
        using ih(3) upt args by simp
      with ih(1) ih(2) all show ?thesis by simp
    qed
  qed
qed

lemma parse_loop_trace:
  assumes "parse_loop fs cb 0 st0 obs = Some (Inr (st', obs'))"
  shows "state_after fs (length (cppFileToParseList st')) st0 = Inr st' \<and>
         obs' = fold (\<lambda>k. run_callback cb (callback_args fs st0 k)) [0..<length (cppFileToParseList st')] obs \<and>
         (\<forall>k < length (cppFileToParseList st').
            \<exists>s. state_after fs k st0 = Inr s \<and> k < length (cppFileToParseList s) \<and>
                cppFileToParseList s ! k = cppFileToParseList st' ! k)"
  using parse_loop_trace_aux [OF assms, where ?st0.0 = st0, rule_format, of st' obs'] by simp

section \<open>Configured folders that do not exist\<close>

text \<open>
  A folder of the include list or of the resolve list that is not on the disk is in the set
  of invalid paths of every result. A folder of the parse list for which the directory
  iterator raises makes the pass raise.
\<close>

lemma seedIncludeFolders_invalid:
  "seedIncludeFolders fs folders res = Inr res' \<Longrightarrow>
   (d \<in> set folders \<and> fs_exists fs d = Some False \<or> path_set_contains d (invalidPathSet res)) \<Longrightarrow>
   path_set_contains d (invalidPathSet res')"
proof (induction folders arbitrary: res)
  case Nil
  then show ?case by simp
next
  case (Cons a folders)
  from Cons.prems(1) obtain there where ex: "fs_exists fs a = Some there"
    by (auto split: option.splits)
  show ?case
  proof (cases there)
    case True
    with ex Cons.prems obtain c where "seedIncludeFolders fs folders
        (res\<lparr>resolveIncludeFolderSet := set_insert path_less c (resolveIncludeFolderSet res)\<rparr>) = Inr res'"
      by (auto split: option.splits)
    from Cons.IH [OF this] Cons.prems(2) True ex show ?thesis by auto
  next
    case False
    with ex Cons.prems have "seedIncludeFolders fs folders
        (res\<lparr>invalidPathSet := set_insert path_less a (invalidPathSet res)\<rparr>) = Inr res'"
      by simp
    from Cons.IH [OF this] Cons.prems(2) show ?thesis
      by (auto simp: set_insert_paths_contains path_set_contains_insert)
  qed
qed

lemma seedResolveFolders_invalid:
  "seedResolveFolders fs folders files res = Inr (files', res') \<Longrightarrow>
   (d \<in> set folders \<and> fs_exists fs d = Some False \<or> path_set_contains d (invalidPathSet res)) \<Longrightarrow>
   path_set_contains d (invalidPathSet res')"
proof (induction folders arbitrary: files res)
  case Nil
  then show ?case by simp
next
  case (Cons a folders)
  from Cons.prems(1) obtain there where ex: "fs_exists fs a = Some there"
    by (auto split: option.splits)
  show ?case
  proof (cases there)
    case True
    with ex Cons.prems obtain files1 where "seedResolveFolders fs folders files1 res = Inr (files', res')"
      by (auto split: sum.splits)
    from Cons.IH [OF this] Cons.prems(2) True ex show ?thesis by auto
  next
    case False
    with ex Cons.prems have "seedResolveFolders fs folders files
        (res\<lparr>invalidPathSet := set_insert path_less a (invalidPathSet res)\<rparr>) = Inr (files', res')"
      by simp
    from Cons.IH [OF this] Cons.prems(2) show ?thesis
      by (auto simp: set_insert_paths_contains path_set_contains_insert)
  qed
qed

lemma process_include_invalid:
  assumes "process_include fs f l inc st = Inr st'"
  shows "invalidPathSet (result st') = invalidPathSet (result st)"
  using assms by (cases rule: process_include_cases) simp_all

lemma pass_steps_invalid:
  "pass_steps fs st st' \<Longrightarrow> invalidPathSet (result st') = invalidPathSet (result st)"
  by (induction rule: pass_steps.induct) (auto dest: process_include_invalid)

lemma missing_include_or_resolve_folder_recorded:
  assumes run: "computeIncludeResolve fs settings cb obs proc = Some (Inr (res, obs', proc'))"
    and d: "d \<in> set (includeFolderList settings) \<or> d \<in> set (resolveFolderList settings)"
    and missing: "fs_exists fs d = Some False"
  shows "path_set_contains d (invalidPathSet res)"
proof -
  from computeIncludeResolve_steps [OF run] obtain st0 st' where
    st0: "start_state fs settings proc = Inr st0" and steps: "pass_steps fs st0 st'"
    and res: "res = result st'"
    by blast
  from st0 obtain seeds res1 files res2 where
    a: "seedIncludeFolders fs (includeFolderList settings) empty_result = Inr res1"
    and b: "seedResolveFolders fs (resolveFolderList settings) [] res1 = Inr (files, res2)"
    and r: "result st0 = res2"
    by (auto simp: start_state_def initial_state_def split: sum.splits)
  from d missing have "path_set_contains d (invalidPathSet res2)"
    using seedIncludeFolders_invalid [OF a, of d] seedResolveFolders_invalid [OF b, of d] by blast
  with pass_steps_invalid [OF steps] r res show ?thesis by simp
qed

lemma seedParseFolders_missing:
  "d \<in> set folders \<Longrightarrow> fs_directory_iterator fs d = None \<Longrightarrow>
   seedParseFolders fs folders acc = Inl Filesystem_Error"
proof (induction folders arbitrary: acc)
  case Nil
  then show ?case by simp
next
  case (Cons a folders)
  show ?case
  proof (cases "updateCppFileList fs a acc")
    case (Inl e)
    with updateCppFileList_error [OF Inl] show ?thesis by simp
  next
    case (Inr acc')
    with Cons.prems have "d \<in> set folders"
      by (auto simp: updateCppFileList_def)
    from Cons.IH [OF this Cons.prems(2)] Inr show ?thesis by simp
  qed
qed

lemma missing_parse_folder_always_raises:
  assumes "d \<in> set (toParseFolderList settings)" and "fs_directory_iterator fs d = None"
  shows "computeIncludeResolve fs settings cb obs proc = Some (Inl Filesystem_Error)"
  using seedParseFolders_missing [OF assms]
  by (simp add: computeIncludeResolve_def start_state_def)

text \<open>
  C1. The claim: every configured folder that is not on the disk, in the parse list as in
  the other two, is recorded as invalid and the pass goes on. The code checks the folders
  of the include list and of the resolve list, and hands those of the parse list to
  \<open>updateCppFileList\<close> unchecked: with the parse folder \<open>/nowhere\<close>, which does not exist,
  the pass ends in the exception of the directory iterator and returns no result. Without
  that folder in the parse list, the folders \<open>/gone\<close> and \<open>/void\<close> of the other two
  lists, which do not exist either, are recorded as invalid.
\<close>

theorem missing_parse_folder_raises:
  "fs_exists fs_B ''/nowhere'' = Some False \<and>
   ''/nowhere'' \<in> set (toParseFolderList settings_D) \<and>
   computeIncludeResolve fs_B settings_D no_callback () fresh_process = Some (Inl Filesystem_Error) \<and>
   computeIncludeResolve fs_B settings_D' no_callback () fresh_process =
     Some (Inr (\<lparr>invalidPathSet = [''/gone'', ''/void''], unresolvedIncludeSet = [],
                  conflictedIncludeMap = [], resolveIncludeFolderSet = [''/r1'']\<rparr>,
                (), process_after_first))"
  by (simp add: eval_defs fs_B_def settings_D_def settings_D'_def process_after_first_def)

section \<open>A directive without closing delimiter\<close>

text \<open>
  When a line starts with the directive marker and has an opening delimiter and no closing
  one after it, the include text is the rest of the line.
\<close>

lemma find_first_of_bound:
  "find_first_of s cs pos \<noteq> npos \<Longrightarrow> find_first_of s cs pos < length s"
  by (simp add: find_first_of_def Let_def split: if_splits)

lemma size_t_sub_le:
  assumes "b \<le> a" and "a < 2 ^ 64"
  shows "size_t_sub a b = a - b"
proof -
  from assms(1) have "a + 2 ^ 64 - b = (a - b) + 2 ^ 64" by arith
  moreover from assms(2) have "a - b < 2 ^ 64" by arith
  ultimately show ?thesis unfolding size_t_sub_def by (simp only: mod_add_self2 mod_less)
qed

lemma size_t_sub_npos:
  assumes le: "startPos + 2 \<le> (2::nat) ^ 64"
  shows "size_t_sub (size_t_sub npos startPos) 1 = 2 ^ 64 - 2 - startPos"
proof -
  have n: "npos < 2 ^ 64" by (simp add: npos_def)
  from le have a: "startPos \<le> npos" by (simp add: npos_def)
  have "size_t_sub npos startPos = npos - startPos"
    using a n by (rule size_t_sub_le)
  moreover have "size_t_sub (npos - startPos) 1 = npos - startPos - 1"
  proof (rule size_t_sub_le)
    from le show "1 \<le> npos - startPos" by (simp add: npos_def)
    from n show "npos - startPos < 2 ^ 64" by arith
  qed
  moreover have "npos - startPos - 1 = 2 ^ 64 - 2 - startPos" by (simp add: npos_def)
  ultimately show ?thesis by (simp only:)
qed

lemma include_of_line_unclosed:
  assumes marker: "bStartWith ln ''#include '' = Some sub"
    and opens: "find_first_of sub [CHR 0x22, CHR ''<''] 0 = startPos" "startPos \<noteq> npos"
    and no_closing: "find_first_of sub [CHR 0x22, CHR ''>''] (startPos + 1) = npos"
    and size: "length sub < 2 ^ 64"
  shows "include_of_line ln = Some (drop (startPos + 1) sub)"
proof -
  from opens find_first_of_bound [of sub "[CHR 0x22, CHR ''<'']" 0]
  have lt: "startPos < length sub" by simp
  with size have le: "startPos + 2 \<le> (2::nat) ^ 64" by arith
  from size have "length (drop (startPos + 1) sub) \<le> 2 ^ 64 - 2 - startPos"
    unfolding length_drop by arith
  then have "take (2 ^ 64 - 2 - startPos) (drop (startPos + 1) sub) = drop (startPos + 1) sub"
    by (rule take_all)
  then have "substr sub (startPos + 1) (size_t_sub (size_t_sub npos startPos) 1) =
      drop (startPos + 1) sub"
    unfolding substr_def size_t_sub_npos [OF le] .
  with marker opens no_closing show ?thesis
    by (simp add: include_of_line_def Let_def)
qed

text \<open>
  C2. The claim: a directive line with an opening delimiter and no closing one is skipped
  and leaves no trace. The code tests the position of the opening delimiter against
  \<open>npos\<close> and not the position of the closing one; the length \<open>endPos - startPos - 1\<close>
  wraps around, \<open>substr\<close> cuts it at the end of the line, and the rest of the line
  is taken for the include text. The line \<open>#include "missing.h\<close> is recorded as an
  unresolved include of \<open>missing.h\<close>.
\<close>

theorem unclosed_directive_is_recorded:
  "fs_lines fs_M ''/p/main.cpp'' = [''#include '' @ [CHR 0x22] @ ''missing.h''] \<and>
   find_first_of ([CHR 0x22] @ ''missing.h'') [CHR 0x22, CHR ''>''] 1 = npos \<and>
   include_of_line (''#include '' @ [CHR 0x22] @ ''missing.h'') = Some ''missing.h'' \<and>
   computeIncludeResolve fs_M settings_M no_callback () fresh_process =
     Some (Inr (\<lparr>invalidPathSet = [],
                  unresolvedIncludeSet =
                    [\<lparr>filePath = ''/p/main.cpp'', line = 1, includeText = ''missing.h''\<rparr>],
                  conflictedIncludeMap = [], resolveIncludeFolderSet = []\<rparr>,
                (),
                \<lparr>activations = 1, addToParse_env = Some 0, findProjectInclude_env = Some 0,
                   findInclude_env = Some 0\<rparr>))"
  by (simp add: eval_defs fs_M_def settings_M_def)

section \<open>A single candidate\<close>




section \<open>An include text that has a conflict\<close>

text \<open>
  C4, as amended. Once an include text has an entry in the conflict map, every later
  occurrence of it that is not resolved beside its own file is added to the locations of
  that entry and to nothing else: the unresolved includes, the resolved folders, the
  worklist and the keys of the conflict map stay as they are, and to the end of the pass
  that entry is the only one whose key is equivalent to the include text.
\<close>

theorem existing_conflict_continuation:
  assumes start: "start_state fs settings proc = Inr st0"
    and before: "pass_steps fs st0 st"
    and entry: "multimap_find inc (conflictedIncludeMap (result st)) = Some it"
    and not_beside: "fs_exists fs (path_join (parent_path f) inc) \<noteq> Some True"
    and occurrence: "process_include fs f l inc st = Inr st1"
    and after: "pass_steps fs st1 st'"
  shows "unresolvedIncludeSet (result st1) = unresolvedIncludeSet (result st) \<and>
         resolveIncludeFolderSet (result st1) = resolveIncludeFolderSet (result st) \<and>
         cppFileToParseList st1 = cppFileToParseList st \<and>
         map fst (conflictedIncludeMap (result st1)) = map fst (conflictedIncludeMap (result st)) \<and>
         (\<exists>e \<in> set (conflictedIncludeMap (result st')).
            fst e = fst (conflictedIncludeMap (result st) ! it) \<and>
            location_set_contains \<lparr>filePath = f, line = l\<rparr> (includeLocationSet (snd e)) \<and>
            (\<forall>e' \<in> set (conflictedIncludeMap (result st')). path_equiv (fst e') inc \<longrightarrow> e' = e))"
proof -
  let ?m = "conflictedIncludeMap (result st)"
  let ?loc = "\<lparr>filePath = f, line = l\<rparr>"
  let ?x = "(fst (?m ! it), (snd (?m ! it))\<lparr>includeLocationSet :=
               set_insert location_less ?loc (includeLocationSet (snd (?m ! it)))\<rparr>)"
  from multimap_find_Some [OF entry] have it: "it < length ?m" and eq: "path_equiv (fst (?m ! it)) inc"
    by simp_all
  from occurrence have r1: "result st1 = (result st)\<lparr>conflictedIncludeMap := ?m[it := ?x]\<rparr>"
    and w1: "cppFileToParseList st1 = cppFileToParseList st"
    by (cases rule: process_include_cases; use entry not_beside in simp)+
  from it have x1: "?x \<in> set (conflictedIncludeMap (result st1))"
    by (simp add: r1 set_update_memI)
  from pass_steps_conflicts_grow [OF after] x1 obtain e where
    e: "e \<in> set (conflictedIncludeMap (result st'))" "fst e = fst ?x"
    "set (includeLocationSet (snd ?x)) \<subseteq> set (includeLocationSet (snd e))"
    unfolding conflicts_grow_def by blast
  have "location_set_contains ?loc (includeLocationSet (snd ?x))"
    by (simp add: set_insert_location_contains)
  with e(3) have loc: "location_set_contains ?loc (includeLocationSet (snd e))"
    by (auto simp: location_set_contains_def)
  have all: "pass_steps fs st0 st'"
    using after pass_step [OF before occurrence] by (rule pass_steps_trans)
  from pass_steps_wf [OF all start_state_wf [OF start]]
  have sorted: "sorted_wrt path_less (map fst (conflictedIncludeMap (result st')))"
    by (simp add: conflicts_wf_def)
  have uniq: "e' = e" if "e' \<in> set (conflictedIncludeMap (result st'))" "path_equiv (fst e') inc" for e'
  proof -
    from that(2) eq e(2) have "path_equiv (fst e') (fst e)" by (simp add: path_equiv_iff)
    from sorted_keys_unique [OF sorted that(1) e(1) this] show ?thesis .
  qed
  from r1 w1 it e loc uniq show ?thesis
    by (auto simp: map_fst_update_snd)
qed

theorem existing_conflict_continuation_witness:
  "\<exists>st st1. start_state fs_Q settings_Q fresh_process = Inr st_Q \<and>
      scan_file fs_Q ''/p/main.cpp'' st_Q = Inr st \<and>
      pass_steps fs_Q st_Q st \<and>
      multimap_find ''c.h'' (conflictedIncludeMap (result st)) = Some 0 \<and>
      fs_exists fs_Q (path_join (parent_path ''/p/second.cpp'') ''c.h'') \<noteq> Some True \<and>
      process_include fs_Q ''/p/second.cpp'' 1 ''c.h'' st = Inr st1 \<and>
      pass_steps fs_Q st1 st1 \<and>
      unresolvedIncludeSet (result st1) = unresolvedIncludeSet (result st) \<and>
      resolveIncludeFolderSet (result st1) = resolveIncludeFolderSet (result st) \<and>
      cppFileToParseList st1 = cppFileToParseList st \<and>
      map fst (conflictedIncludeMap (result st1)) = map fst (conflictedIncludeMap (result st)) \<and>
      (\<exists>e \<in> set (conflictedIncludeMap (result st1)).
         fst e = fst (conflictedIncludeMap (result st) ! 0) \<and>
         location_set_contains \<lparr>filePath = ''/p/second.cpp'', line = 1\<rparr> (includeLocationSet (snd e)) \<and>
         (\<forall>e' \<in> set (conflictedIncludeMap (result st1)). path_equiv (fst e') ''c.h'' \<longrightarrow> e' = e))"
proof -
  have "\<exists>st st1. scan_file fs_Q ''/p/main.cpp'' st_Q = Inr st \<and>
      multimap_find ''c.h'' (conflictedIncludeMap (result st)) = Some 0 \<and>
      process_include fs_Q ''/p/second.cpp'' 1 ''c.h'' st = Inr st1"
    by (simp add: eval_defs fs_Q_def st_Q_def)
  then obtain st st1 where first: "scan_file fs_Q ''/p/main.cpp'' st_Q = Inr st"
    and entry: "multimap_find ''c.h'' (conflictedIncludeMap (result st)) = Some 0"
    and occ: "process_include fs_Q ''/p/second.cpp'' 1 ''c.h'' st = Inr st1"
    by blast
  have nb: "fs_exists fs_Q (path_join (parent_path ''/p/second.cpp'') ''c.h'') \<noteq> Some True"
    by (simp add: eval_defs fs_Q_def)
  note before = scan_file_steps [OF first]
  note c = existing_conflict_continuation [OF st_Q_start before entry nb occ pass_refl]
  from st_Q_start first before entry nb occ c show ?thesis
    by (intro exI [of _ st] exI [of _ st1] conjI pass_refl) simp_all
qed

text \<open>
  C4, as stated, fails. The claim: every later occurrence of a conflicted include text,
  at any file and line, is added to the locations of the conflict and not resolved by
  itself. The path beside the including file is tried first, before the conflict map is
  looked at: on \<open>fs_Q\<close> the conflict on \<open>c.h\<close> is recorded at \<open>/p/main.cpp\<close>, scanned
  first; \<open>/q/other.cpp\<close>, scanned third, includes \<open>c.h\<close> too and has one beside it, and
  its line is not among the locations of the conflict.
\<close>

theorem later_occurrence_resolved_beside_its_file:
  "fs_lines fs_Q ''/q/other.cpp'' = [inc_line ''c.h''] \<and>
   include_of_line (inc_line ''c.h'') = Some ''c.h'' \<and>
   computeIncludeResolve fs_Q settings_Q displayParseStatus [] fresh_process =
     Some (Inr (\<lparr>invalidPathSet = [], unresolvedIncludeSet = [],
                  conflictedIncludeMap =
                    [(''c.h'',
                      \<lparr>includeLocationSet =
                         [\<lparr>filePath = ''/p/main.cpp'', line = 1\<rparr>,
                          \<lparr>filePath = ''/p/second.cpp'', line = 1\<rparr>],
                         resolveIncludeFolderSet_c = [''/r1'', ''/r2'']\<rparr>)],
                  resolveIncludeFolderSet = []\<rparr>,
                [(1, 4, ''/p/main.cpp''), (2, 6, ''/p/second.cpp''), (3, 6, ''/q/other.cpp''),
                 (4, 6, ''/q/c.h''), (5, 6, ''/r1/c.h''), (6, 6, ''/r2/c.h'')],
                process_after_first))"
  by (simp add: eval_defs fs_Q_def settings_Q_def process_after_first_def)

section \<open>The order of the strategies\<close>

text \<open>
  When \<open>exists\<close> throws, at the path beside the including file or at a known include
  folder that the fallback comes to, the directive raises, and the pass with it: on
  \<open>fs_L\<close> the pass ends in the exception at the first line of \<open>main.cpp\<close>.
\<close>

lemma exists_raises_beside:
  "fs_exists fs (path_join (parent_path f) inc) = None \<Longrightarrow>
   process_include fs f l inc st = Inl Filesystem_Error"
  by (simp add: process_include_def)

lemma stat_error_aborts_pass:
  "fs_exists fs_L ''/w/sub/b.h'' = None \<and>
   computeIncludeResolve fs_L settings_L no_callback () fresh_process = Some (Inl Filesystem_Error)"
  by (simp add: eval_defs fs_L_def settings_L_def)

text \<open>
  An include directive is recorded as unresolved only when every strategy has failed: the
  path beside the including file does not exist, the include text has no entry in the
  conflict map, the pool has no candidate, and the include text exists under none of the
  known include folders.
\<close>

lemma findProjectInclude_loop_None:
  "findProjectInclude_loop fs inc ds = Inr None \<Longrightarrow>
   \<forall>x \<in> set ds. fs_exists fs (path_join x inc) = Some False"
  by (induction ds) (auto simp: Let_def split: option.splits if_splits)

lemma unresolved_only_when_all_fail:
  assumes alive: "closures_alive st"
    and step: "process_include fs f l inc st = Inr st'"
    and recorded: "unresolvedIncludeSet (result st') \<noteq> unresolvedIncludeSet (result st)"
  shows "fs_exists fs (path_join (parent_path f) inc) = Some False \<and>
         multimap_find inc (conflictedIncludeMap (result st)) = None \<and>
         candidate_folders inc (resolveFileMultiMap st) = [] \<and>
         (\<forall>x \<in> set (resolveIncludeFolderSet (result st)). fs_exists fs (path_join x inc) = Some False)"
proof -
  let ?st2 = "declare_finders (declare_addToParse st)"
  let ?known = "resolveIncludeFolderSet (result st)"
  from step recorded have first:
    "fs_exists fs (path_join (parent_path f) inc) = Some False \<and>
     multimap_find inc (conflictedIncludeMap (result st)) = None \<and>
     candidate_folders inc (resolveFileMultiMap st) = []"
    by (cases rule: process_include_cases) simp_all
  with step alive have run:
    "(case findProjectInclude_loop fs inc ?known of
        Inl err \<Rightarrow> Inl err
      | Inr None \<Rightarrow>
          Inr (?st2\<lparr>result := (result ?st2)\<lparr>unresolvedIncludeSet :=
                 set_insert unresolved_less \<lparr>filePath = f, line = l, includeText = inc\<rparr>
                   (unresolvedIncludeSet (result ?st2))\<rparr>\<rparr>)
      | Inr (Some fileFound) \<Rightarrow> addToParse fs fileFound ?st2) = Inr st'"
    by (simp add: process_include_def Let_def alive_findInclude alive_findProjectInclude)
  have "findProjectInclude_loop fs inc ?known = Inr None"
  proof (cases "findProjectInclude_loop fs inc ?known")
    case (Inl e)
    with run show ?thesis by simp
  next
    case (Inr r)
    show ?thesis
    proof (cases r)
      case None
      with Inr show ?thesis by simp
    next
      case (Some fileFound)
      with Inr run have "addToParse fs fileFound ?st2 = Inr st'" by simp
      from addToParse_result [OF this] recorded show ?thesis by simp
    qed
  qed
  from findProjectInclude_loop_None [OF this] first show ?thesis by simp
qed

text \<open>
  C5. At every include directive the strategies are tried in this order, each only when
  those before it have failed: the path beside the including file; the entry that the
  include text already has in the conflict map; the candidate search in the pool, with one
  folder found or with several; the known include folders in the order of the set, the
  first whose join with the include text exists being taken and no folder added; and the
  record as unresolved when nothing has applied. A strategy has failed when its test has
  returned false: where \<open>exists\<close> throws, beside the including file or at a known include
  folder before any at which it returns true, the directive raises and nothing is recorded.
\<close>

theorem resolution_priority:
  assumes alive: "closures_alive st"
  shows
   "(fs_exists fs (path_join (parent_path f) inc) = None \<longrightarrow>
       process_include fs f l inc st = Inl Filesystem_Error) \<and>
    (fs_exists fs (path_join (parent_path f) inc) = Some True \<longrightarrow>
       process_include fs f l inc st =
         addToParse fs (path_join (parent_path f) inc) (declare_addToParse st)) \<and>
    (fs_exists fs (path_join (parent_path f) inc) = Some False \<and>
     multimap_find inc (conflictedIncludeMap (result st)) = Some it \<longrightarrow>
       process_include fs f l inc st =
         Inr ((declare_finders (declare_addToParse st))
           \<lparr>result := (result st)\<lparr>conflictedIncludeMap :=
              (conflictedIncludeMap (result st))
                [it := (fst (conflictedIncludeMap (result st) ! it),
                        (snd (conflictedIncludeMap (result st) ! it))
                          \<lparr>includeLocationSet :=
                             set_insert location_less \<lparr>filePath = f, line = l\<rparr>
                               (includeLocationSet (snd (conflictedIncludeMap (result st) ! it)))\<rparr>)]\<rparr>\<rparr>)) \<and>
    (fs_exists fs (path_join (parent_path f) inc) = Some False \<and>
     multimap_find inc (conflictedIncludeMap (result st)) = None \<and>
     candidate_folders inc (resolveFileMultiMap st) = [d] \<longrightarrow>
       process_include fs f l inc st =
         addToParse fs (path_join d inc)
           ((declare_finders (declare_addToParse st))
              \<lparr>result := (result st)\<lparr>resolveIncludeFolderSet :=
                 set_insert path_less d (resolveIncludeFolderSet (result st))\<rparr>\<rparr>)) \<and>
    (fs_exists fs (path_join (parent_path f) inc) = Some False \<and>
     multimap_find inc (conflictedIncludeMap (result st)) = None \<and>
     2 \<le> length (candidate_folders inc (resolveFileMultiMap st)) \<longrightarrow>
       process_include fs f l inc st =
         addToParse_each fs inc (candidate_folders inc (resolveFileMultiMap st))
           ((declare_finders (declare_addToParse st))
              \<lparr>result := (result st)\<lparr>conflictedIncludeMap :=
                 multimap_emplace inc
                   \<lparr>includeLocationSet = [\<lparr>filePath = f, line = l\<rparr>],
                      resolveIncludeFolderSet_c = candidate_folders inc (resolveFileMultiMap st)\<rparr>
                   (conflictedIncludeMap (result st))\<rparr>\<rparr>)) \<and>
    (fs_exists fs (path_join (parent_path f) inc) = Some False \<and>
     multimap_find inc (conflictedIncludeMap (result st)) = None \<and>
     candidate_folders inc (resolveFileMultiMap st) = [] \<and>
     resolveIncludeFolderSet (result st) = dsa @ d' # dsb \<and>
     (\<forall>x \<in> set dsa. fs_exists fs (path_join x inc) = Some False) \<and>
     fs_exists fs (path_join d' inc) = Some True \<longrightarrow>
       process_include fs f l inc st =
         addToParse fs (path_join d' inc) (declare_finders (declare_addToParse st)) \<and>
       (\<forall>st'. process_include fs f l inc st = Inr st' \<longrightarrow> result st' = result st)) \<and>
    (fs_exists fs (path_join (parent_path f) inc) = Some False \<and>
     multimap_find inc (conflictedIncludeMap (result st)) = None \<and>
     candidate_folders inc (resolveFileMultiMap st) = [] \<and>
     resolveIncludeFolderSet (result st) = dsa @ d' # dsb \<and>
     (\<forall>x \<in> set dsa. fs_exists fs (path_join x inc) = Some False) \<and>
     fs_exists fs (path_join d' inc) = None \<longrightarrow>
       process_include fs f l inc st = Inl Filesystem_Error) \<and>
    (fs_exists fs (path_join (parent_path f) inc) = Some False \<and>
     multimap_find inc (conflictedIncludeMap (result st)) = None \<and>
     candidate_folders inc (resolveFileMultiMap st) = [] \<and>
     (\<forall>x \<in> set (resolveIncludeFolderSet (result st)). fs_exists fs (path_join x inc) = Some False) \<longrightarrow>
       process_include fs f l inc st =
         Inr ((declare_finders (declare_addToParse st))
           \<lparr>result := (result st)\<lparr>unresolvedIncludeSet :=
              set_insert unresolved_less \<lparr>filePath = f, line = l, includeText = inc\<rparr>
                (unresolvedIncludeSet (result st))\<rparr>\<rparr>))"
proof (intro conjI impI)
  assume "fs_exists fs (path_join (parent_path f) inc) = None"
  then show "process_include fs f l inc st = Inl Filesystem_Error"
    by (simp add: process_include_def)
next
  assume "fs_exists fs (path_join (parent_path f) inc) = Some True"
  then show "process_include fs f l inc st =
         addToParse fs (path_join (parent_path f) inc) (declare_addToParse st)"
    by (simp add: process_include_def)
next
  assume "fs_exists fs (path_join (parent_path f) inc) = Some False \<and>
     multimap_find inc (conflictedIncludeMap (result st)) = Some it"
  then show "process_include fs f l inc st =
         Inr ((declare_finders (declare_addToParse st))
           \<lparr>result := (result st)\<lparr>conflictedIncludeMap :=
              (conflictedIncludeMap (result st))
                [it := (fst (conflictedIncludeMap (result st) ! it),
                        (snd (conflictedIncludeMap (result st) ! it))
                          \<lparr>includeLocationSet :=
                             set_insert location_less \<lparr>filePath = f, line = l\<rparr>
                               (includeLocationSet (snd (conflictedIncludeMap (result st) ! it)))\<rparr>)]\<rparr>\<rparr>)"
    by (simp add: process_include_def Let_def)
next
  assume "fs_exists fs (path_join (parent_path f) inc) = Some False \<and>
     multimap_find inc (conflictedIncludeMap (result st)) = None \<and>
     candidate_folders inc (resolveFileMultiMap st) = [d]"
  then show "process_include fs f l inc st =
         addToParse fs (path_join d inc)
           ((declare_finders (declare_addToParse st))
              \<lparr>result := (result st)\<lparr>resolveIncludeFolderSet :=
                 set_insert path_less d (resolveIncludeFolderSet (result st))\<rparr>\<rparr>)"
    using alive by (simp add: process_include_def Let_def alive_findInclude)
next
  assume a: "fs_exists fs (path_join (parent_path f) inc) = Some False \<and>
     multimap_find inc (conflictedIncludeMap (result st)) = None \<and>
     2 \<le> length (candidate_folders inc (resolveFileMultiMap st))"
  then have "candidate_folders inc (resolveFileMultiMap st) \<noteq> []"
    and "length (candidate_folders inc (resolveFileMultiMap st)) \<noteq> 1"
    by auto
  with a show "process_include fs f l inc st =
         addToParse_each fs inc (candidate_folders inc (resolveFileMultiMap st))
           ((declare_finders (declare_addToParse st))
              \<lparr>result := (result st)\<lparr>conflictedIncludeMap :=
                 multimap_emplace inc
                   \<lparr>includeLocationSet = [\<lparr>filePath = f, line = l\<rparr>],
                      resolveIncludeFolderSet_c = candidate_folders inc (resolveFileMultiMap st)\<rparr>
                   (conflictedIncludeMap (result st))\<rparr>\<rparr>)"
    using alive by (simp add: process_include_def Let_def alive_findInclude)
next
  assume a: "fs_exists fs (path_join (parent_path f) inc) = Some False \<and>
     multimap_find inc (conflictedIncludeMap (result st)) = None \<and>
     candidate_folders inc (resolveFileMultiMap st) = [] \<and>
     resolveIncludeFolderSet (result st) = dsa @ d' # dsb \<and>
     (\<forall>x \<in> set dsa. fs_exists fs (path_join x inc) = Some False) \<and>
     fs_exists fs (path_join d' inc) = Some True"
  then have fnd: "findProjectInclude_loop fs inc (resolveIncludeFolderSet (result st))
      = Inr (Some (path_join d' inc))"
    using findProjectInclude_loop_found [of dsa fs inc d' dsb] by simp
  with a have eq: "process_include fs f l inc st =
         addToParse fs (path_join d' inc) (declare_finders (declare_addToParse st))"
    using alive by (simp add: process_include_def Let_def alive_findInclude alive_findProjectInclude)
  show "process_include fs f l inc st =
         addToParse fs (path_join d' inc) (declare_finders (declare_addToParse st))"
    by (rule eq)
  show "\<forall>st'. process_include fs f l inc st = Inr st' \<longrightarrow> result st' = result st"
    using eq addToParse_result [of fs "path_join d' inc" "declare_finders (declare_addToParse st)"] by simp
next
  assume a: "fs_exists fs (path_join (parent_path f) inc) = Some False \<and>
     multimap_find inc (conflictedIncludeMap (result st)) = None \<and>
     candidate_folders inc (resolveFileMultiMap st) = [] \<and>
     resolveIncludeFolderSet (result st) = dsa @ d' # dsb \<and>
     (\<forall>x \<in> set dsa. fs_exists fs (path_join x inc) = Some False) \<and>
     fs_exists fs (path_join d' inc) = None"
  then have fnd: "findProjectInclude_loop fs inc (resolveIncludeFolderSet (result st))
      = Inl Filesystem_Error"
    using findProjectInclude_loop_raises [of dsa fs inc d' dsb] by simp
  with a show "process_include fs f l inc st = Inl Filesystem_Error"
    using alive by (simp add: process_include_def Let_def alive_findInclude alive_findProjectInclude)
next
  assume a: "fs_exists fs (path_join (parent_path f) inc) = Some False \<and>
     multimap_find inc (conflictedIncludeMap (result st)) = None \<and>
     candidate_folders inc (resolveFileMultiMap st) = [] \<and>
     (\<forall>x \<in> set (resolveIncludeFolderSet (result st)). fs_exists fs (path_join x inc) = Some False)"
  then have fnd: "findProjectInclude_loop fs inc (resolveIncludeFolderSet (result st)) = Inr None"
    using findProjectInclude_loop_none [of "resolveIncludeFolderSet (result st)" fs inc] by simp
  with a show "process_include fs f l inc st =
         Inr ((declare_finders (declare_addToParse st))
           \<lparr>result := (result st)\<lparr>unresolvedIncludeSet :=
              set_insert unresolved_less \<lparr>filePath = f, line = l, includeText = inc\<rparr>
                (unresolvedIncludeSet (result st))\<rparr>\<rparr>)"
    using alive by (simp add: process_include_def Let_def alive_findInclude alive_findProjectInclude)
qed

theorem resolution_priority_witness:
  "(closures_alive st_L \<and> fs_exists fs_L (path_join (parent_path ''/p/main.cpp'') ''locked/a.h'') = None \<and>
    process_include fs_L ''/p/main.cpp'' 2 ''locked/a.h'' st_L = Inl Filesystem_Error) \<and>
   (closures_alive st_Q \<and> fs_exists fs_Q (path_join (parent_path ''/q/other.cpp'') ''c.h'') = Some True \<and>
    process_include fs_Q ''/q/other.cpp'' 1 ''c.h'' st_Q =
      addToParse fs_Q (path_join (parent_path ''/q/other.cpp'') ''c.h'') (declare_addToParse st_Q)) \<and>
   (closures_alive st_Q_conflict \<and>
    fs_exists fs_Q (path_join (parent_path ''/p/main.cpp'') ''c.h'') = Some False \<and>
    multimap_find ''c.h'' (conflictedIncludeMap (result st_Q_conflict)) = Some 0 \<and>
    process_include fs_Q ''/p/main.cpp'' 7 ''c.h'' st_Q_conflict =
      Inr ((declare_finders (declare_addToParse st_Q_conflict))
        \<lparr>result := (result st_Q_conflict)\<lparr>conflictedIncludeMap :=
           (conflictedIncludeMap (result st_Q_conflict))
             [0 := (fst (conflictedIncludeMap (result st_Q_conflict) ! 0),
                    (snd (conflictedIncludeMap (result st_Q_conflict) ! 0))
                      \<lparr>includeLocationSet :=
                         set_insert location_less \<lparr>filePath = ''/p/main.cpp'', line = 7\<rparr>
                           (includeLocationSet (snd (conflictedIncludeMap (result st_Q_conflict) ! 0)))\<rparr>)]\<rparr>\<rparr>)) \<and>
   (closures_alive st_X \<and> fs_exists fs_X (path_join (parent_path ''/p/main.cpp'') ''a.h'') = Some False \<and>
    multimap_find ''a.h'' (conflictedIncludeMap (result st_X)) = None \<and>
    candidate_folders ''a.h'' (resolveFileMultiMap st_X) = [''/x''] \<and>
    process_include fs_X ''/p/main.cpp'' 1 ''a.h'' st_X =
      addToParse fs_X (path_join ''/x'' ''a.h'')
        ((declare_finders (declare_addToParse st_X))
           \<lparr>result := (result st_X)\<lparr>resolveIncludeFolderSet :=
              set_insert path_less ''/x'' (resolveIncludeFolderSet (result st_X))\<rparr>\<rparr>)) \<and>
   (fs_exists fs_X (path_join (parent_path ''/p/main.cpp'') ''b.h'') = Some False \<and>
    multimap_find ''b.h'' (conflictedIncludeMap (result st_X)) = None \<and>
    2 \<le> length (candidate_folders ''b.h'' (resolveFileMultiMap st_X)) \<and>
    process_include fs_X ''/p/main.cpp'' 2 ''b.h'' st_X =
      addToParse_each fs_X ''b.h'' (candidate_folders ''b.h'' (resolveFileMultiMap st_X))
        ((declare_finders (declare_addToParse st_X))
           \<lparr>result := (result st_X)\<lparr>conflictedIncludeMap :=
              multimap_emplace ''b.h''
                \<lparr>includeLocationSet = [\<lparr>filePath = ''/p/main.cpp'', line = 2\<rparr>],
                   resolveIncludeFolderSet_c = candidate_folders ''b.h'' (resolveFileMultiMap st_X)\<rparr>
                (conflictedIncludeMap (result st_X))\<rparr>\<rparr>)) \<and>
   (closures_alive st_X_known \<and>
    fs_exists fs_X (path_join (parent_path ''/p/main.cpp'') ''b.h'') = Some False \<and>
    multimap_find ''b.h'' (conflictedIncludeMap (result st_X_known)) = None \<and>
    candidate_folders ''b.h'' (resolveFileMultiMap st_X_known) = [] \<and>
    resolveIncludeFolderSet (result st_X_known) = [''/w''] @ ''/x'' # [''/y''] \<and>
    fs_exists fs_X (path_join ''/w'' ''b.h'') = Some False \<and>
    fs_exists fs_X (path_join ''/x'' ''b.h'') = Some True \<and>
    process_include fs_X ''/p/main.cpp'' 2 ''b.h'' st_X_known =
      addToParse fs_X (path_join ''/x'' ''b.h'') (declare_finders (declare_addToParse st_X_known)) \<and>
    (\<exists>st'. process_include fs_X ''/p/main.cpp'' 2 ''b.h'' st_X_known = Inr st' \<and>
       result st' = result st_X_known)) \<and>
   (fs_exists fs_L (path_join (parent_path ''/p/main.cpp'') ''sub/b.h'') = Some False \<and>
    multimap_find ''sub/b.h'' (conflictedIncludeMap (result st_L)) = None \<and>
    candidate_folders ''sub/b.h'' (resolveFileMultiMap st_L) = [] \<and>
    resolveIncludeFolderSet (result st_L) = [''/v''] @ ''/w'' # [] \<and>
    fs_exists fs_L (path_join ''/v'' ''sub/b.h'') = Some False \<and>
    fs_exists fs_L (path_join ''/w'' ''sub/b.h'') = None \<and>
    process_include fs_L ''/p/main.cpp'' 1 ''sub/b.h'' st_L = Inl Filesystem_Error) \<and>
   (closures_alive st_M \<and>
    fs_exists fs_M (path_join (parent_path ''/p/main.cpp'') ''missing.h'') = Some False \<and>
    multimap_find ''missing.h'' (conflictedIncludeMap (result st_M)) = None \<and>
    candidate_folders ''missing.h'' (resolveFileMultiMap st_M) = [] \<and>
    resolveIncludeFolderSet (result st_M) = [] \<and>
    process_include fs_M ''/p/main.cpp'' 1 ''missing.h'' st_M =
      Inr ((declare_finders (declare_addToParse st_M))
        \<lparr>result := (result st_M)\<lparr>unresolvedIncludeSet :=
           set_insert unresolved_less \<lparr>filePath = ''/p/main.cpp'', line = 1, includeText = ''missing.h''\<rparr>
             (unresolvedIncludeSet (result st_M))\<rparr>\<rparr>))"
proof -
  have aQ: "closures_alive st_Q" and aQc: "closures_alive st_Q_conflict" and aX: "closures_alive st_X"
    and aXk: "closures_alive st_X_known" and aM: "closures_alive st_M" and aL: "closures_alive st_L"
    by (simp_all add: state_defs initial_state_def fresh_process_def)
  have h0: "fs_exists fs_L (path_join (parent_path ''/p/main.cpp'') ''locked/a.h'') = None"
    by (simp add: eval_defs fs_L_def)
  have h1: "fs_exists fs_Q (path_join (parent_path ''/q/other.cpp'') ''c.h'') = Some True"
    by (simp add: eval_defs fs_Q_def)
  have h2a: "fs_exists fs_Q (path_join (parent_path ''/p/main.cpp'') ''c.h'') = Some False"
    and h2b: "multimap_find ''c.h'' (conflictedIncludeMap (result st_Q_conflict)) = Some 0"
    by (simp_all add: eval_defs fs_Q_def state_defs)
  have h3a: "fs_exists fs_X (path_join (parent_path ''/p/main.cpp'') ''a.h'') = Some False"
    and h3b: "multimap_find ''a.h'' (conflictedIncludeMap (result st_X)) = None"
    and h3c: "candidate_folders ''a.h'' (resolveFileMultiMap st_X) = [''/x'']"
    by (simp_all add: eval_defs fs_X_def state_defs)
  have h4a: "fs_exists fs_X (path_join (parent_path ''/p/main.cpp'') ''b.h'') = Some False"
    and h4b: "multimap_find ''b.h'' (conflictedIncludeMap (result st_X)) = None"
    and h4c: "2 \<le> length (candidate_folders ''b.h'' (resolveFileMultiMap st_X))"
    by (simp_all add: eval_defs fs_X_def state_defs)
  have h5b: "multimap_find ''b.h'' (conflictedIncludeMap (result st_X_known)) = None"
    and h5c: "candidate_folders ''b.h'' (resolveFileMultiMap st_X_known) = []"
    and h5d: "resolveIncludeFolderSet (result st_X_known) = [''/w''] @ ''/x'' # [''/y'']"
    and h5e: "\<forall>x \<in> set [''/w'']. fs_exists fs_X (path_join x ''b.h'') = Some False"
    and h5e': "fs_exists fs_X (path_join ''/w'' ''b.h'') = Some False"
    and h5f: "fs_exists fs_X (path_join ''/x'' ''b.h'') = Some True"
    and h5g: "\<exists>st'. process_include fs_X ''/p/main.cpp'' 2 ''b.h'' st_X_known = Inr st'"
    by (simp_all add: eval_defs fs_X_def state_defs)
  have h7a: "fs_exists fs_L (path_join (parent_path ''/p/main.cpp'') ''sub/b.h'') = Some False"
    and h7b: "multimap_find ''sub/b.h'' (conflictedIncludeMap (result st_L)) = None"
    and h7c: "candidate_folders ''sub/b.h'' (resolveFileMultiMap st_L) = []"
    and h7d: "resolveIncludeFolderSet (result st_L) = [''/v''] @ ''/w'' # []"
    and h7e: "\<forall>x \<in> set [''/v'']. fs_exists fs_L (path_join x ''sub/b.h'') = Some False"
    and h7e': "fs_exists fs_L (path_join ''/v'' ''sub/b.h'') = Some False"
    and h7f: "fs_exists fs_L (path_join ''/w'' ''sub/b.h'') = None"
    by (simp_all add: eval_defs fs_L_def state_defs)
  have h6a: "fs_exists fs_M (path_join (parent_path ''/p/main.cpp'') ''missing.h'') = Some False"
    and h6b: "multimap_find ''missing.h'' (conflictedIncludeMap (result st_M)) = None"
    and h6c: "candidate_folders ''missing.h'' (resolveFileMultiMap st_M) = []"
    and h6d: "\<forall>x \<in> set (resolveIncludeFolderSet (result st_M)).
                fs_exists fs_M (path_join x ''missing.h'') = Some False"
    and h6d': "resolveIncludeFolderSet (result st_M) = []"
    by (simp_all add: eval_defs fs_M_def state_defs)
  note r0 = resolution_priority [OF aL, where fs = fs_L and f = "''/p/main.cpp''" and inc = "''locked/a.h''" and l = 2]
  note r1 = resolution_priority [OF aQ, where fs = fs_Q and f = "''/q/other.cpp''" and inc = "''c.h''" and l = 1]
  note r2 = resolution_priority [OF aQc, where fs = fs_Q and f = "''/p/main.cpp''" and inc = "''c.h''" and l = 7 and it = 0]
  note r3 = resolution_priority [OF aX, where fs = fs_X and f = "''/p/main.cpp''" and inc = "''a.h''" and l = 1 and d = "''/x''"]
  note r4 = resolution_priority [OF aX, where fs = fs_X and f = "''/p/main.cpp''" and inc = "''b.h''" and l = 2]
  note r5 = resolution_priority [OF aXk, where fs = fs_X and f = "''/p/main.cpp''" and inc = "''b.h''" and l = 2
      and dsa = "[''/w'']" and d' = "''/x''" and dsb = "[''/y'']"]
  note r7 = resolution_priority [OF aL, where fs = fs_L and f = "''/p/main.cpp''" and inc = "''sub/b.h''" and l = 1
      and dsa = "[''/v'']" and d' = "''/w''" and dsb = "[]"]
  note r6 = resolution_priority [OF aM, where fs = fs_M and f = "''/p/main.cpp''" and inc = "''missing.h''" and l = 1]
  note c0 = r0 [THEN conjunct1, THEN mp, OF h0]
  note c1 = r1 [THEN conjunct2, THEN conjunct1, THEN mp, OF h1]
  note c2 = r2 [THEN conjunct2, THEN conjunct2, THEN conjunct1, THEN mp, OF conjI [OF h2a h2b]]
  note c3 = r3 [THEN conjunct2, THEN conjunct2, THEN conjunct2, THEN conjunct1, THEN mp,
      OF conjI [OF h3a conjI [OF h3b h3c]]]
  note c4 = r4 [THEN conjunct2, THEN conjunct2, THEN conjunct2, THEN conjunct2, THEN conjunct1, THEN mp,
      OF conjI [OF h4a conjI [OF h4b h4c]]]
  note c5 = r5 [THEN conjunct2, THEN conjunct2, THEN conjunct2, THEN conjunct2, THEN conjunct2,
      THEN conjunct1, THEN mp,
      OF conjI [OF h4a conjI [OF h5b conjI [OF h5c conjI [OF h5d conjI [OF h5e h5f]]]]]]
  note c7 = r7 [THEN conjunct2, THEN conjunct2, THEN conjunct2, THEN conjunct2, THEN conjunct2,
      THEN conjunct2, THEN conjunct1, THEN mp,
      OF conjI [OF h7a conjI [OF h7b conjI [OF h7c conjI [OF h7d conjI [OF h7e h7f]]]]]]
  note c6 = r6 [THEN conjunct2, THEN conjunct2, THEN conjunct2, THEN conjunct2, THEN conjunct2,
      THEN conjunct2, THEN conjunct2, THEN mp,
      OF conjI [OF h6a conjI [OF h6b conjI [OF h6c h6d]]]]
  from h5g c5 [THEN conjunct2]
  have c5': "\<exists>st'. process_include fs_X ''/p/main.cpp'' 2 ''b.h'' st_X_known = Inr st' \<and>
       result st' = result st_X_known"
    by blast
  show ?thesis
    by (intro conjI aQ aQc aX aXk aM aL h0 h1 h2a h2b h3a h3b h3c h4a h4b h4c h5b h5c h5d h5e' h5f
          h7a h7b h7c h7d h7e' h7f h6a h6b h6c h6d' c0 c1 c2 c3 c4 c5 [THEN conjunct1] c5' c7 c6)
qed

section \<open>One occurrence, two records\<close>

text \<open>
  One scan of a line records it at most once: a line that is recorded nowhere is not both
  among the unresolved includes and among the locations of a conflict after its scan. When
  no file is seeded twice and no file has as many lines as line numbers exist, no line is
  recorded in both ways in the result of the pass.
\<close>

lemma process_include_exclusive:
  assumes step: "process_include fs f l inc st = Inr st'"
    and fresh: "\<not> unresolved_at (result st) f l" "\<not> conflicted_at (result st) f l"
  shows "\<not> (unresolved_at (result st') f l \<and> conflicted_at (result st') f l)"
  using step
proof (cases rule: process_include_cases)
  case relative
  with fresh show ?thesis by simp
next
  case (continuation it)
  with fresh(1) show ?thesis by (simp add: unresolved_at_def)
next
  case (single d)
  with fresh show ?thesis by (simp add: unresolved_at_def conflicted_at_def)
next
  case conflict
  with fresh(1) show ?thesis by (simp add: unresolved_at_def)
next
  case fallback
  with fresh show ?thesis by simp
next
  case unresolved
  with fresh(2) show ?thesis by (simp add: conflicted_at_def)
qed

lemma conflicted_at_update:
  assumes it: "it < length m"
  shows "conflicted_at (res\<lparr>conflictedIncludeMap :=
            m[it := (fst (m ! it), (snd (m ! it))\<lparr>includeLocationSet :=
               set_insert location_less loc (includeLocationSet (snd (m ! it)))\<rparr>)]\<rparr>) f l \<longleftrightarrow>
         conflicted_at (res\<lparr>conflictedIncludeMap := m\<rparr>) f l \<or>
         (\<exists>x \<in> set (set_insert location_less loc (includeLocationSet (snd (m ! it)))).
            filePath x = f \<and> line x = l)"
    (is "conflicted_at (res\<lparr>conflictedIncludeMap := m[it := ?x]\<rparr>) f l \<longleftrightarrow> ?R")
proof
  assume "conflicted_at (res\<lparr>conflictedIncludeMap := m[it := ?x]\<rparr>) f l"
  then obtain e y where e: "e \<in> set (m[it := ?x])" and y: "y \<in> set (includeLocationSet (snd e))"
    "filePath y = f" "line y = l"
    by (auto simp: conflicted_at_def)
  from e set_update_subset_insert [of m it ?x] have "e = ?x \<or> e \<in> set m" by auto
  with y show ?R by (auto simp: conflicted_at_def)
next
  assume r: ?R
  have old: "\<exists>e' \<in> set (m[it := ?x]). y \<in> set (includeLocationSet (snd e'))"
    if "e \<in> set m" "y \<in> set (includeLocationSet (snd e))" for e y
  proof -
    from that(1) obtain j where j: "j < length m" "m ! j = e" by (auto simp: in_set_conv_nth)
    show ?thesis
    proof (cases "j = it")
      case True
      with j that(2) it set_insert_subset [of "includeLocationSet (snd e)" location_less loc]
      have "?x \<in> set (m[it := ?x])" "y \<in> set (includeLocationSet (snd ?x))"
        by (auto simp: set_update_memI)
      then show ?thesis by blast
    next
      case False
      with j have "(m[it := ?x]) ! j = e" by simp
      with j have "e \<in> set (m[it := ?x])" by (metis length_list_update nth_mem)
      with that(2) show ?thesis by blast
    qed
  qed
  from r show "conflicted_at (res\<lparr>conflictedIncludeMap := m[it := ?x]\<rparr>) f l"
  proof
    assume "conflicted_at (res\<lparr>conflictedIncludeMap := m\<rparr>) f l"
    with old show ?thesis by (fastforce simp: conflicted_at_def)
  next
    assume "\<exists>x \<in> set (set_insert location_less loc (includeLocationSet (snd (m ! it)))).
            filePath x = f \<and> line x = l"
    then obtain x where x: "x \<in> set (includeLocationSet (snd ?x))" "filePath x = f" "line x = l"
      by auto
    from it have "?x \<in> set (m[it := ?x])" by (rule set_update_memI)
    with x show ?thesis
      unfolding conflicted_at_def by (intro bexI [of _ ?x] bexI [of _ x]) simp_all
  qed
qed

lemma process_include_other_locations:
  assumes step: "process_include fs f l inc st = Inr st'" and other: "f' \<noteq> f \<or> l' \<noteq> l"
  shows "unresolved_at (result st') f' l' = unresolved_at (result st) f' l' \<and>
         conflicted_at (result st') f' l' = conflicted_at (result st) f' l'"
  using step
proof (cases rule: process_include_cases)
  case relative
  then show ?thesis by simp
next
  case (continuation it)
  let ?m = "conflictedIncludeMap (result st)"
  from multimap_find_Some [OF continuation(2)] have it: "it < length ?m" by simp
  have same: "result st = (result st)\<lparr>conflictedIncludeMap := ?m\<rparr>" by simp
  have mem: "?m ! it \<in> set ?m" using it by simp
  have "conflicted_at (result st') f' l' = conflicted_at (result st) f' l'"
    unfolding continuation(3) conflicted_at_update [OF it]
    using other set_insert_superset [of location_less "\<lparr>filePath = f, line = l\<rparr>"
        "includeLocationSet (snd (?m ! it))"] mem
    by (fastforce simp: conflicted_at_def)
  moreover have "unresolved_at (result st') f' l' = unresolved_at (result st) f' l'"
    by (simp add: continuation(3) unresolved_at_def)
  ultimately show ?thesis by simp
next
  case (single d)
  then show ?thesis by (simp add: unresolved_at_def conflicted_at_def)
next
  case conflict
  with other show ?thesis
    by (auto simp: unresolved_at_def conflicted_at_def multimap_emplace_set)
next
  case fallback
  then show ?thesis by simp
next
  case unresolved
  with other set_insert_cases [of unresolved_less
      "\<lparr>filePath = f, line = l, includeText = inc\<rparr>" "unresolvedIncludeSet (result st)"]
  show ?thesis
    by (auto simp: unresolved_at_def conflicted_at_def)
qed

lemma process_include_exclusive_all:
  assumes step: "process_include fs f l inc st = Inr st'"
    and excl: "exclusive (result st)" and fresh: "\<not> recorded_at (result st) f l"
  shows "exclusive (result st')"
  unfolding exclusive_def
proof (intro allI)
  fix f' l'
  show "\<not> (unresolved_at (result st') f' l' \<and> conflicted_at (result st') f' l')"
  proof (cases "f' = f \<and> l' = l")
    case True
    with process_include_exclusive [OF step] fresh show ?thesis
      by (simp add: recorded_at_def)
  next
    case False
    then have "f' \<noteq> f \<or> l' \<noteq> l" by simp
    from process_include_other_locations [OF step this] excl show ?thesis
      by (simp add: exclusive_def)
  qed
qed

lemma process_include_recorded:
  assumes step: "process_include fs f l inc st = Inr st'" and rec: "recorded_at (result st') f' l'"
  shows "recorded_at (result st) f' l' \<or> (f' = f \<and> l' = l)"
proof (cases "f' = f \<and> l' = l")
  case True
  then show ?thesis by simp
next
  case False
  then have "f' \<noteq> f \<or> l' \<noteq> l" by simp
  from process_include_other_locations [OF step this] rec show ?thesis
    by (simp add: recorded_at_def)
qed

lemma line_numbers_differ:
  assumes "m < n" and "n < 2 ^ 32"
  shows "(of_nat n :: 32 word) \<noteq> of_nat m"
proof
  assume "(of_nat n :: 32 word) = of_nat m"
  then have "take_bit 32 n = take_bit 32 m"
    by (simp add: word_of_nat_eq_iff)
  moreover from assms have "take_bit 32 n = n" "take_bit 32 m = m"
    by (simp_all add: take_bit_nat_eq_self)
  ultimately show False using assms(1) by simp
qed

lemma scan_lines_exclusive:
  assumes "scan_lines fs f (of_nat n) lns st = Inr st'"
    and "exclusive (result st)"
    and "\<forall>l. recorded_at (result st) f l \<longrightarrow> (\<exists>m. m < n \<and> l = of_nat m)"
    and "n + length lns \<le> 2 ^ 32"
  shows "exclusive (result st') \<and>
         (\<forall>f' l. recorded_at (result st') f' l \<longrightarrow> recorded_at (result st) f' l \<or> f' = f)"
  using assms
proof (induction lns arbitrary: n st)
  case Nil
  then show ?case by simp
next
  case (Cons ln lns)
  from Cons.prems(1) obtain st1 where line: "process_line fs f (of_nat n) ln st = Inr st1"
    and rest: "scan_lines fs f (of_nat (Suc n)) lns st1 = Inr st'"
    by (auto split: sum.splits simp: add.commute)
  from Cons.prems(4) have n: "n < 2 ^ 32" by simp
  have fresh: "\<not> recorded_at (result st) f (of_nat n)"
  proof
    assume "recorded_at (result st) f (of_nat n)"
    with Cons.prems(3) obtain m where "m < n" "(of_nat n :: 32 word) = of_nat m" by blast
    with line_numbers_differ [OF _ n] show False by blast
  qed
  have one: "exclusive (result st1) \<and>
      (\<forall>f' l. recorded_at (result st1) f' l \<longrightarrow>
         recorded_at (result st) f' l \<or> (f' = f \<and> l = of_nat n))"
  proof (cases "include_of_line ln")
    case None
    with line Cons.prems(2) show ?thesis by (simp add: process_line_def)
  next
    case (Some inc)
    with line have step: "process_include fs f (of_nat n) inc st = Inr st1"
      by (simp add: process_line_def)
    from process_include_exclusive_all [OF step Cons.prems(2) fresh]
      process_include_recorded [OF step]
    show ?thesis by blast
  qed
  have "\<forall>l. recorded_at (result st1) f l \<longrightarrow> (\<exists>m. m < Suc n \<and> l = of_nat m)"
  proof (intro allI impI)
    fix l assume "recorded_at (result st1) f l"
    with one have "recorded_at (result st) f l \<or> l = of_nat n" by blast
    with Cons.prems(3) show "\<exists>m. m < Suc n \<and> l = of_nat m"
      by (metis less_Suc_eq)
  qed
  moreover from Cons.prems(4) have "Suc n + length lns \<le> 2 ^ 32" by simp
  ultimately have "exclusive (result st') \<and>
         (\<forall>f' l. recorded_at (result st') f' l \<longrightarrow> recorded_at (result st1) f' l \<or> f' = f)"
    using Cons.IH [OF rest] one by blast
  with one show ?case by blast
qed

lemma scan_file_exclusive:
  assumes scan: "scan_file fs f st = Inr st'"
    and excl: "exclusive (result st)"
    and fresh: "\<forall>l. \<not> recorded_at (result st) f l"
    and lines: "length (fs_lines fs f) < 2 ^ 32"
  shows "exclusive (result st') \<and>
         (\<forall>f' l. recorded_at (result st') f' l \<longrightarrow> recorded_at (result st) f' l \<or> f' = f)"
proof -
  from scan have "scan_lines fs f (of_nat 1) (fs_lines fs f) st = Inr st'"
    by (simp add: scan_file_def)
  moreover from fresh have "\<forall>l. recorded_at (result st) f l \<longrightarrow> (\<exists>m. m < 1 \<and> l = of_nat m)"
    by simp
  moreover from lines have "1 + length (fs_lines fs f) \<le> 2 ^ 32" by simp
  ultimately show ?thesis using excl by (intro scan_lines_exclusive) 
qed

lemma parse_loop_exclusive_aux:
  assumes "parse_loop fs cb i st obs = Some r"
  shows "\<forall>st' obs'. r = Inr (st', obs') \<longrightarrow> (\<forall>f. length (fs_lines fs f) < 2 ^ 32) \<longrightarrow>
           worklist_distinct st \<longrightarrow> exclusive (result st) \<longrightarrow>
           (\<forall>f l. recorded_at (result st) f l \<longrightarrow> f \<in> set (take i (cppFileToParseList st))) \<longrightarrow>
           exclusive (result st')"
proof (rule parse_loop.raw_induct
    [where P = "\<lambda>fs cb i st obs r. \<forall>st' obs'. r = Inr (st', obs') \<longrightarrow>
           (\<forall>f. length (fs_lines fs f) < 2 ^ 32) \<longrightarrow>
           worklist_distinct st \<longrightarrow> exclusive (result st) \<longrightarrow>
           (\<forall>f l. recorded_at (result st) f l \<longrightarrow> f \<in> set (take i (cppFileToParseList st))) \<longrightarrow>
           exclusive (result st')", OF _ assms],
    goal_cases)
  case (1 pl fs cb i st obs r)
  show ?case
  proof (intro allI impI)
    fix st' obs'
    assume r: "r = Inr (st', obs')" and lines: "\<forall>f. length (fs_lines fs f) < 2 ^ 32"
      and dist: "worklist_distinct st" and excl: "exclusive (result st)"
      and rec: "\<forall>f l. recorded_at (result st) f l \<longrightarrow> f \<in> set (take i (cppFileToParseList st))"
    show "exclusive (result st')"
    proof (cases "i < length (cppFileToParseList st)")
      case False
      with 1(2) r excl show ?thesis by simp
    next
      case True
      let ?f = "cppFileToParseList st ! i"
      from True 1(2) r obtain st1 where scan: "scan_file fs ?f st = Inr st1"
        and loop: "pl fs cb (i + 1) st1
            (cb (i + 1) (length (cppFileToParseList st)) ?f obs) = Some (Inr (st', obs'))"
        by (auto simp: Let_def split: sum.splits)
      from dist have d: "distinct (cppFileToParseList st)" by (simp add: worklist_distinct_def)
      have split: "take (Suc i) (cppFileToParseList st) = take i (cppFileToParseList st) @ [?f]"
        using True by (rule take_Suc_conv_app_nth)
      from d have "distinct (take (Suc i) (cppFileToParseList st))" by simp
      with split have "?f \<notin> set (take i (cppFileToParseList st))" by simp
      with rec have fresh: "\<forall>l. \<not> recorded_at (result st) ?f l" by blast
      from scan_file_exclusive [OF scan excl fresh] lines
      have excl1: "exclusive (result st1)"
        and rec1: "\<forall>f' l. recorded_at (result st1) f' l \<longrightarrow> recorded_at (result st) f' l \<or> f' = ?f"
        by simp_all
      note steps = scan_file_steps [OF scan]
      from pass_steps_distinct [OF steps dist] have dist1: "worklist_distinct st1" .
      from pass_steps_worklist [OF steps] obtain ys where
        ys: "cppFileToParseList st1 = cppFileToParseList st @ ys" by blast
      with True split have "take (i + 1) (cppFileToParseList st1) =
          take i (cppFileToParseList st) @ [?f]"
        by simp
      with rec rec1 have "\<forall>f l. recorded_at (result st1) f l \<longrightarrow>
          f \<in> set (take (i + 1) (cppFileToParseList st1))"
        by auto
      with 1(1) [OF loop] lines dist1 excl1 show ?thesis by blast
    qed
  qed
qed

lemma exclusive_when_scanned_once:
  assumes run: "computeIncludeResolve fs settings cb obs proc = Some (Inr (res, obs', proc'))"
    and start: "start_state fs settings proc = Inr st0"
    and seeds: "distinct (cppFileToParseList st0)"
    and lines: "\<forall>f. length (fs_lines fs f) < 2 ^ 32"
  shows "\<not> (unresolved_at res f l \<and> conflicted_at res f l)"
proof -
  from computeIncludeResolve_Inr [OF run] start obtain st' where
    loop: "parse_loop fs cb 0 st0 obs = Some (Inr (st', obs'))" and res: "res = result st'"
    by auto
  from start have "cppFileToParseSet st0 = set (cppFileToParseList st0)"
    by (auto simp: start_state_def initial_state_def split: sum.splits)
  with seeds have dist: "worklist_distinct st0" by (simp add: worklist_distinct_def)
  from start_state_fields [OF start] have none: "\<forall>f l. \<not> recorded_at (result st0) f l"
    by (simp add: recorded_at_def unresolved_at_def conflicted_at_def)
  then have "exclusive (result st0)" by (simp add: exclusive_def recorded_at_def)
  with parse_loop_exclusive_aux [OF loop] lines dist none have "exclusive (result st')" by simp
  with res show ?thesis by (simp add: exclusive_def)
qed

text \<open>
  C6. The claim: an occurrence of an include directive ends up in one class only, never
  both among the unresolved includes and among the locations of a conflict. The conflict
  map is keyed by paths, and \<open>a//b.h\<close> and \<open>a/b.h\<close> are equivalent keys, while the candidate
  search compares the text of the include with the end of the candidate's name. On \<open>fs_S\<close>
  the file \<open>f.cpp\<close> is seeded twice (the defect of C7) and so scanned twice: at the first
  scan its line 1, \<open>a//b.h\<close>, finds no candidate and is recorded as unresolved, and its
  line 2, \<open>a/b.h\<close>, is recorded as a conflict; at the second scan line 1 finds the entry of
  \<open>a/b.h\<close> in the conflict map and is added to its locations.
\<close>

theorem occurrence_unresolved_and_conflicted:
  "fs_lines fs_S ''/d/f.cpp'' = [inc_line ''a//b.h'', inc_line ''a/b.h''] \<and>
   computeIncludeResolve fs_S settings_S displayParseStatus [] fresh_process =
     Some (Inr (\<lparr>invalidPathSet = [],
                  unresolvedIncludeSet =
                    [\<lparr>filePath = ''/d/f.cpp'', line = 1, includeText = ''a//b.h''\<rparr>],
                  conflictedIncludeMap =
                    [(''a/b.h'',
                      \<lparr>includeLocationSet =
                         [\<lparr>filePath = ''/d/f.cpp'', line = 1\<rparr>,
                          \<lparr>filePath = ''/d/f.cpp'', line = 2\<rparr>],
                         resolveIncludeFolderSet_c = [''/r1'', ''/r2'']\<rparr>)],
                  resolveIncludeFolderSet = []\<rparr>,
                [(1, 2, ''/d/f.cpp''), (2, 4, ''/d/f.cpp''), (3, 4, ''/r1/a/b.h''),
                 (4, 4, ''/r2/a/b.h'')],
                process_after_first))"
  by (simp add: eval_defs fs_S_def settings_S_def process_after_first_def)

section \<open>Termination, and files scanned more than once\<close>

text \<open>
  When the canonical paths of the file system are finitely many, the pass returns or raises.
  When no file is seeded twice, no file is scanned twice.
\<close>

lemma card_new_element:
  assumes "finite U" and "c \<in> U" and "c \<notin> S"
  shows "card (U - S) = Suc (card (U - insert c S))"
proof -
  from assms(2,3) have "U - S = insert c (U - insert c S)" by auto
  moreover have "card (insert c (U - insert c S)) = Suc (card (U - insert c S))"
    by (rule card_insert_disjoint) (use assms(1) in auto)
  ultimately show ?thesis by (simp only:)
qed

lemma addToParse_bound:
  assumes fin: "finite (ran (fs_canonical fs))" and step: "addToParse fs p st = Inr st'"
  shows "worklist_bound fs st' = worklist_bound fs st"
proof (cases "fs_canonical fs p")
  case None
  with step show ?thesis by (simp add: addToParse_def split: if_splits)
next
  case (Some c)
  show ?thesis
  proof (cases "c \<in> cppFileToParseSet st")
    case True
    with Some step have "st' = st" by (simp add: addToParse_def split: if_splits)
    then show ?thesis by simp
  next
    case False
    from Some have cU: "c \<in> ran (fs_canonical fs)" by (rule ranI)
    note card = card_new_element [OF fin cU False]
    from step Some False have st': "st' = st\<lparr>cppFileToParseSet := insert c (cppFileToParseSet st),
        cppFileToParseList := cppFileToParseList st @ [c]\<rparr>"
      by (simp add: addToParse_def split: if_splits)
    have l: "length (cppFileToParseList st') = Suc (length (cppFileToParseList st))"
      and s: "cppFileToParseSet st' = insert c (cppFileToParseSet st)"
      by (simp_all add: st')
    show ?thesis
      unfolding worklist_bound_def l s card by (simp only: add_Suc add_Suc_right)
  qed
qed

lemma addToParse_each_bound:
  assumes fin: "finite (ran (fs_canonical fs))"
  shows "addToParse_each fs inc ds st = Inr st' \<Longrightarrow> worklist_bound fs st' = worklist_bound fs st"
proof (induction ds arbitrary: st)
  case Nil
  then show ?case by simp
next
  case (Cons d ds)
  then obtain st1 where a: "addToParse fs (path_join d inc) st = Inr st1"
    and b: "addToParse_each fs inc ds st1 = Inr st'"
    by (auto split: sum.splits)
  from addToParse_bound [OF fin a] Cons.IH [OF b] show ?case by simp
qed

lemma worklist_bound_cong:
  "cppFileToParseList st' = cppFileToParseList st \<Longrightarrow> cppFileToParseSet st' = cppFileToParseSet st \<Longrightarrow>
   worklist_bound fs st' = worklist_bound fs st"
  by (simp add: worklist_bound_def)

lemma process_include_bound:
  assumes fin: "finite (ran (fs_canonical fs))" and step: "process_include fs f l inc st = Inr st'"
  shows "worklist_bound fs st' = worklist_bound fs st"
proof -
  have d: "worklist_bound fs (declare_addToParse st) = worklist_bound fs st"
    "worklist_bound fs (declare_finders (declare_addToParse st)) = worklist_bound fs st"
    "\<And>r. worklist_bound fs ((declare_finders (declare_addToParse st))\<lparr>result := r\<rparr>) = worklist_bound fs st"
    by (simp_all add: worklist_bound_def declare_finders_def declare_addToParse_def)
  from step show ?thesis
    by (auto simp: process_include_def Let_def d
        split: if_splits option.splits sum.splits
        dest!: addToParse_bound [OF fin] addToParse_each_bound [OF fin])
qed

lemma pass_steps_bound:
  assumes fin: "finite (ran (fs_canonical fs))"
  shows "pass_steps fs st st' \<Longrightarrow> worklist_bound fs st' = worklist_bound fs st"
  by (induction rule: pass_steps.induct) (auto dest: process_include_bound [OF fin])

lemma parse_loop_returns:
  assumes fin: "finite (ran (fs_canonical fs))"
  shows "\<exists>r. parse_loop fs cb i st obs = Some r"
proof (induction "worklist_bound fs st - i" arbitrary: i st obs rule: less_induct)
  case less
  show ?case
  proof (cases "i < length (cppFileToParseList st)")
    case False
    then show ?thesis by (simp add: parse_loop_done)
  next
    case True
    show ?thesis
    proof (cases "scan_file fs (cppFileToParseList st ! i) st")
      case (Inl e)
      with True show ?thesis by (simp add: parse_loop_unfold)
    next
      case (Inr st1)
      from pass_steps_bound [OF fin scan_file_steps [OF Inr]]
      have b: "worklist_bound fs st1 = worklist_bound fs st" .
      from True have "i < worklist_bound fs st" by (simp add: worklist_bound_def)
      with b have "worklist_bound fs st1 - Suc i < worklist_bound fs st - i" by simp
      from less [OF this] Inr True show ?thesis by (simp add: parse_loop_unfold)
    qed
  qed
qed

lemma computeIncludeResolve_returns:
  assumes "finite (ran (fs_canonical fs))"
  shows "\<exists>r. computeIncludeResolve fs settings cb obs proc = Some r"
  using parse_loop_returns [OF assms]
  by (auto simp: computeIncludeResolve_def split: sum.splits)

lemma fold_displayParseStatus:
  "fold (\<lambda>k. run_callback displayParseStatus (g k)) ks out = out @ map g ks"
  by (induction ks arbitrary: out)
    (auto simp: run_callback_def displayParseStatus_def split: prod.splits)

lemma files_scanned_once:
  assumes run: "computeIncludeResolve fs settings displayParseStatus [] proc = Some (Inr (res, out, proc'))"
    and start: "start_state fs settings proc = Inr st0"
    and seeds: "distinct (cppFileToParseList st0)"
  shows "distinct (map (\<lambda>(current, n, cppFileToParse). cppFileToParse) out)"
proof -
  from computeIncludeResolve_Inr [OF run] start obtain st' where
    loop: "parse_loop fs displayParseStatus 0 st0 [] = Some (Inr (st', out))"
    by auto
  note tr = parse_loop_trace [OF loop]
  from tr have out: "out = fold (\<lambda>k. run_callback displayParseStatus (callback_args fs st0 k))
                  [0..<length (cppFileToParseList st')] []"
    by simp
  have args: "\<forall>k < length (cppFileToParseList st').
            \<exists>s. state_after fs k st0 = Inr s \<and> k < length (cppFileToParseList s) \<and>
                callback_args fs st0 k =
                  (Suc k, length (cppFileToParseList s), cppFileToParseList st' ! k)"
  proof (intro allI impI)
    fix k assume "k < length (cppFileToParseList st')"
    with tr obtain s where "state_after fs k st0 = Inr s" "k < length (cppFileToParseList s)"
        "cppFileToParseList s ! k = cppFileToParseList st' ! k"
      by blast
    then show "\<exists>s. state_after fs k st0 = Inr s \<and> k < length (cppFileToParseList s) \<and>
                callback_args fs st0 k =
                  (Suc k, length (cppFileToParseList s), cppFileToParseList st' ! k)"
      by (simp add: callback_args_def)
  qed
  note steps = parse_loop_steps [OF loop]
  from start have "cppFileToParseSet st0 = set (cppFileToParseList st0)"
    by (auto simp: start_state_def initial_state_def split: sum.splits)
  with seeds have "worklist_distinct st0" by (simp add: worklist_distinct_def)
  from pass_steps_distinct [OF steps this] have dist: "distinct (cppFileToParseList st')"
    by (simp add: worklist_distinct_def)
  have "map (\<lambda>(current, n, cppFileToParse). cppFileToParse) out =
        map (\<lambda>k. cppFileToParseList st' ! k) [0..<length (cppFileToParseList st')]"
    unfolding out fold_displayParseStatus using args by auto
  also have "\<dots> = cppFileToParseList st'" by (rule map_nth)
  finally show ?thesis using dist by simp
qed

text \<open>
  C7. The claim: every file, those seeded from the parse folders included, is scanned
  exactly once. \<open>addToParse\<close> appends a path only when the membership set does not hold
  it, but the seed list is built by \<open>updateCppFileList\<close> alone, and the membership set is
  filled from the seed list afterwards: a file found twice among the parse folders is twice in
  the worklist. With the parse folder \<open>/p\<close> named twice, the callback sees
  \<open>/p/main.cpp\<close> at position 1 and again at position 2.
\<close>

theorem seeded_file_scanned_twice:
  "computeIncludeResolve fs_B settings_twice displayParseStatus [] fresh_process =
     Some (Inr (\<lparr>invalidPathSet = [],
                  unresolvedIncludeSet =
                    [\<lparr>filePath = ''/p/main.cpp'', line = 2, includeText = ''config.h''\<rparr>],
                  conflictedIncludeMap = [], resolveIncludeFolderSet = []\<rparr>,
                [(1, 2, ''/p/main.cpp''), (2, 2, ''/p/main.cpp'')],
                \<lparr>activations = 1, addToParse_env = Some 0, findProjectInclude_env = Some 0,
                   findInclude_env = Some 0\<rparr>))"
  by (simp add: eval_defs fs_B_def settings_twice_def)

section \<open>The pass run twice in one process\<close>

text \<open>
  The first pass in a process calls no closure that refers to a finished activation.
\<close>

lemma addToParse_not_dangling:
  "addToParse_env st = Some (frame st) \<Longrightarrow> addToParse fs p st \<noteq> Inl Dangling_Reference"
  by (auto simp: addToParse_def split: option.splits)

lemma addToParse_env_kept:
  "addToParse fs p st = Inr st' \<Longrightarrow> addToParse_env st' = addToParse_env st \<and> frame st' = frame st"
  by (auto simp: addToParse_def split: if_splits option.splits)

lemma addToParse_each_not_dangling:
  "addToParse_env st = Some (frame st) \<Longrightarrow> addToParse_each fs inc ds st \<noteq> Inl Dangling_Reference"
proof (induction ds arbitrary: st)
  case Nil
  then show ?case by simp
next
  case (Cons d ds)
  show ?case
  proof (cases "addToParse fs (path_join d inc) st")
    case (Inl e)
    with addToParse_not_dangling [OF Cons.prems, of fs "path_join d inc"] show ?thesis by simp
  next
    case (Inr st1)
    from addToParse_env_kept [OF Inr] Cons.prems have "addToParse_env st1 = Some (frame st1)" by simp
    from Cons.IH [OF this] Inr show ?thesis by simp
  qed
qed

lemma process_include_not_dangling:
  assumes alive: "closures_alive st"
  shows "process_include fs f l inc st \<noteq> Inl Dangling_Reference"
proof -
  let ?st1 = "declare_addToParse st" and ?st2 = "declare_finders (declare_addToParse st)"
  from alive have a1: "addToParse_env ?st1 = Some (frame ?st1)"
    and a2: "\<And>r. addToParse_env (?st2\<lparr>result := r\<rparr>) = Some (frame (?st2\<lparr>result := r\<rparr>))"
    and a3: "addToParse_env ?st2 = Some (frame ?st2)"
    by (auto simp: closures_alive_def declare_finders_def declare_addToParse_def init_static_def)
  note fi = alive_findInclude [OF alive, of inc]
  note fp = alive_findProjectInclude [OF alive, of fs inc]
  show ?thesis
    unfolding process_include_def Let_def fi fp
    using addToParse_not_dangling [OF a1] addToParse_not_dangling [OF a2] addToParse_not_dangling [OF a3]
      addToParse_each_not_dangling [OF a2]
    by (auto split: option.splits sum.splits dest: findProjectInclude_loop_error)
qed

lemma scan_lines_not_dangling:
  "closures_alive st \<Longrightarrow> scan_lines fs f l lns st \<noteq> Inl Dangling_Reference"
proof (induction lns arbitrary: l st)
  case Nil
  then show ?case by simp
next
  case (Cons ln lns)
  show ?case
  proof (cases "process_line fs f l ln st")
    case (Inl e)
    with process_include_not_dangling [OF Cons.prems] show ?thesis
      by (auto simp: process_line_def split: option.splits)
  next
    case (Inr st1)
    from pass_steps_alive [OF process_line_steps [OF Inr] Cons.prems] have "closures_alive st1" .
    from Cons.IH [OF this] Inr show ?thesis by simp
  qed
qed

lemma parse_loop_not_dangling_aux:
  assumes "parse_loop fs cb i st obs = Some r"
  shows "closures_alive st \<longrightarrow> r \<noteq> Inl Dangling_Reference"
proof (rule parse_loop.raw_induct
    [where P = "\<lambda>fs cb i st obs r. closures_alive st \<longrightarrow> r \<noteq> Inl Dangling_Reference", OF _ assms],
    goal_cases)
  case (1 pl fs cb i st obs r)
  show ?case
  proof
    assume alive: "closures_alive st"
    show "r \<noteq> Inl Dangling_Reference"
    proof (cases "i < length (cppFileToParseList st)")
      case False
      with 1(2) show ?thesis by auto
    next
      case True
      show ?thesis
      proof (cases "scan_file fs (cppFileToParseList st ! i) st")
        case (Inl e)
        with True 1(2) scan_lines_not_dangling [OF alive] show ?thesis
          by (auto simp: scan_file_def)
      next
        case (Inr st1)
        from pass_steps_alive [OF scan_file_steps [OF Inr] alive] have a1: "closures_alive st1" .
        from Inr True 1(2) have "pl fs cb (i + 1) st1
            (cb (i + 1) (length (cppFileToParseList st)) (cppFileToParseList st ! i) obs) = Some r"
          by (simp add: Let_def)
        from 1(1) [OF this] a1 show ?thesis by simp
      qed
    qed
  qed
qed

lemma first_activation_defined:
  "computeIncludeResolve fs settings cb obs fresh_process \<noteq> Some (Inl Dangling_Reference)"
proof (cases "start_state fs settings fresh_process")
  case (Inl e)
  with start_state_error [OF Inl] show ?thesis by (simp add: computeIncludeResolve_def)
next
  case (Inr st0)
  from first_activation_alive [OF Inr pass_refl] have alive: "closures_alive st0" .
  show ?thesis
  proof (cases "parse_loop fs cb 0 st0 obs")
    case None
    with Inr show ?thesis by (simp add: computeIncludeResolve_def)
  next
    case (Some r)
    from parse_loop_not_dangling_aux [OF Some] alive have "r \<noteq> Inl Dangling_Reference" by simp
    with Some Inr show ?thesis by (cases r) (auto simp: computeIncludeResolve_def)
  qed
qed

text \<open>
  C8. The claim: two runs with the same settings on the same file system give the same
  result. The helper closures are \<open>static\<close> and capture the local variables of the
  activation that first reaches them by reference. A second run in the same process calls
  closures that refer to the worklist, the candidate pool and the result of the first run,
  which are gone: on \<open>fs_B\<close> the first run returns the conflict on \<open>config.h\<close>, and the
  second run, started in the process state the first one leaves, has no defined result.
\<close>

theorem second_run_uses_dead_closures:
  "computeIncludeResolve fs_B settings_B no_callback () fresh_process =
     Some (Inr (\<lparr>invalidPathSet = [], unresolvedIncludeSet = [],
                  conflictedIncludeMap =
                    [(''config.h'',
                      \<lparr>includeLocationSet = [\<lparr>filePath = ''/p/main.cpp'', line = 2\<rparr>],
                         resolveIncludeFolderSet_c = [''/r1'', ''/r2'']\<rparr>)],
                  resolveIncludeFolderSet = []\<rparr>,
                (),
                \<lparr>activations = 1, addToParse_env = Some 0, findProjectInclude_env = Some 0,
                   findInclude_env = Some 0\<rparr>)) \<and>
   computeIncludeResolve fs_B settings_B no_callback ()
       \<lparr>activations = 1, addToParse_env = Some 0, findProjectInclude_env = Some 0,
          findInclude_env = Some 0\<rparr> =
     Some (Inl Dangling_Reference)"
  by (simp add: eval_defs fs_B_def settings_B_def)

section \<open>The callback\<close>






section \<open>Conflicted includes\<close>

text \<open>
  C10. In the conflict map that a pass returns, every entry has at least two resolving
  folders and at least one location, and no include text is the key of two entries.
\<close>

theorem conflicted_includes_well_formed:
  assumes "computeIncludeResolve fs settings cb obs proc = Some (Inr (res, obs', proc'))"
  shows "(\<forall>e \<in> set (conflictedIncludeMap res).
            2 \<le> card (set (resolveIncludeFolderSet_c (snd e))) \<and> includeLocationSet (snd e) \<noteq> []) \<and>
         distinct (map fst (conflictedIncludeMap res))"
proof -
  from computeIncludeResolve_steps [OF assms] obtain st0 st' where
    st0: "start_state fs settings proc = Inr st0" and steps: "pass_steps fs st0 st'"
    and res: "res = result st'"
    by blast
  from pass_steps_wf [OF steps start_state_wf [OF st0]] have wf: "conflicts_wf st'" .
  have "2 \<le> card (set (resolveIncludeFolderSet_c (snd e))) \<and> includeLocationSet (snd e) \<noteq> []"
    if "e \<in> set (conflictedIncludeMap res)" for e
  proof -
    from that wf res have ok: "conflict_entry_ok (resolveFileMultiMap st') e"
      by (simp add: conflicts_wf_def)
    then have "distinct (resolveIncludeFolderSet_c (snd e))"
      using candidate_folders_sorted [of "fst e" "resolveFileMultiMap st'"]
      by (simp add: conflict_entry_ok_def sorted_paths_distinct)
    with ok show ?thesis by (auto simp: conflict_entry_ok_def distinct_card)
  qed
  moreover from wf res have "distinct (map fst (conflictedIncludeMap res))"
    by (simp add: conflicts_wf_def sorted_paths_distinct)
  ultimately show ?thesis by blast
qed

theorem conflicted_includes_well_formed_witness:
  "computeIncludeResolve fs_B settings_B displayParseStatus [] fresh_process =
     Some (Inr (result_B,
                [(1, 1, ''/p/main.cpp''), (2, 3, ''/r1/config.h''), (3, 3, ''/r2/config.h'')],
                process_after_first)) \<and>
   conflictedIncludeMap result_B ! 0 \<in> set (conflictedIncludeMap result_B) \<and>
   2 \<le> card (set (resolveIncludeFolderSet_c (snd (conflictedIncludeMap result_B ! 0)))) \<and>
   includeLocationSet (snd (conflictedIncludeMap result_B ! 0)) \<noteq> [] \<and>
   distinct (map fst (conflictedIncludeMap result_B))"
proof -
  have mem: "conflictedIncludeMap result_B ! 0 \<in> set (conflictedIncludeMap result_B)"
    by (simp add: result_B_def)
  note c = conflicted_includes_well_formed [OF run_B]
  from c [THEN conjunct1, rule_format, OF mem] c [THEN conjunct2] run_B mem show ?thesis
    by blast
qed

end
